theory Spec2Isabelle
  imports Main "HOL-Library.Char_ord" "HOL-Library.List_Lexorder" "HOL-Library.Product_Lexorder"
begin

section \<open>Flight records\<close>

text \<open>
  Python integers are unbounded, so times and fares are \<open>int\<close>. Airport codes, flight
  numbers and cabin tags are strings. An exception is a value of type \<open>error\<close>; the
  argument of \<open>ValueError\<close> is the message (\<open>raise ValueError\<close> has the empty message).
\<close>

datatype error = ValueError string | TypeError | AttributeError

definition MIN_LAYOVER_MINUTES :: int where
  "MIN_LAYOVER_MINUTES = 60"

record flight =
  origin :: string
  dest :: string
  flight_number :: string
  depart :: int
  arrive :: int
  economy :: int
  business :: int
  first :: int

definition price_for :: "flight \<Rightarrow> string \<Rightarrow> error + int" where
  "price_for f cabin =
     (if cabin = ''economy'' then Inr (economy f)
      else if cabin = ''business'' then Inr (business f)
      else if cabin = ''first'' then Inr (first f)
      else Inl (ValueError ''''))"

section \<open>Route graph\<close>

text \<open>
  A Python dict keeps its keys in insertion order, so the graph is an association list
  with one entry per key. \<open>graph.setdefault(k, []).append(f)\<close> appends to the list
  of an existing key and adds a new key at the end otherwise; \<open>graph.get(k, [])\<close> is
  \<open>graph_get\<close>.
\<close>

type_synonym graph = "(string \<times> flight list) list"

fun setdefault_append :: "graph \<Rightarrow> string \<Rightarrow> flight \<Rightarrow> graph" where
  "setdefault_append [] k f = [(k, [f])]"
| "setdefault_append ((k', fs) # g) k f =
     (if k' = k then (k', fs @ [f]) # g else (k', fs) # setdefault_append g k f)"

definition build_graph :: "flight list \<Rightarrow> graph" where
  "build_graph fls = fold (\<lambda>f g. setdefault_append g (origin f) f) fls []"

definition graph_get :: "graph \<Rightarrow> string \<Rightarrow> flight list" where
  "graph_get g a = (case map_of g a of None \<Rightarrow> [] | Some fs \<Rightarrow> fs)"

section \<open>Itineraries\<close>

datatype itinerary = Itinerary (flights: "flight list")

definition is_empty :: "itinerary \<Rightarrow> bool" where
  "is_empty it = (flights it = [])"

definition depart_time :: "itinerary \<Rightarrow> int option" where
  "depart_time it = (if flights it = [] then None else Some (depart (hd (flights it))))"

definition arrive_time :: "itinerary \<Rightarrow> int option" where
  "arrive_time it = (if flights it = [] then None else Some (arrive (last (flights it))))"

text \<open>\<open>sum(f.price_for(cabin) for f in self.flights)\<close>: the first raise ends the sum.\<close>

fun sum_prices :: "flight list \<Rightarrow> string \<Rightarrow> int \<Rightarrow> error + int" where
  "sum_prices [] cabin acc = Inr acc"
| "sum_prices (f # fs) cabin acc =
     (case price_for f cabin of Inl e \<Rightarrow> Inl e | Inr p \<Rightarrow> sum_prices fs cabin (acc + p))"

definition total_price :: "itinerary \<Rightarrow> string \<Rightarrow> error + int" where
  "total_price it cabin = sum_prices (flights it) cabin 0"

definition num_stops :: "itinerary \<Rightarrow> int" where
  "num_stops it = max 0 (int (length (flights it)) - 1)"

section \<open>Itinerary reconstruction\<close>

text \<open>
  The backward walk \<open>while cur in prev\<close> runs forever on a cyclic predecessor map, so
  it is a partial function: \<open>None\<close> is the walk that does not return.
\<close>

partial_function (option) reconstruct_walk ::
  "(string \<rightharpoonup> flight) \<Rightarrow> string \<Rightarrow> flight list \<Rightarrow> flight list option" where
  "reconstruct_walk prev cur path =
     (case prev cur of
        None \<Rightarrow> Some path
      | Some fl \<Rightarrow> reconstruct_walk prev (origin fl) (path @ [fl]))"

declare reconstruct_walk.simps [code]

definition reconstruct_itinerary :: "(string \<rightharpoonup> flight) \<Rightarrow> string \<Rightarrow> itinerary option" where
  "reconstruct_itinerary prev dst =
     map_option (\<lambda>path. Itinerary (rev path)) (reconstruct_walk prev dst [])"

section \<open>Priority queue\<close>

text \<open>
  \<open>heapq\<close> keeps a binary heap in a list. \<open>heappop\<close> returns the least entry, and
  the entries are tuples of integers and strings, compared lexicographically, so the
  entry popped depends only on which entries are in the queue: the queue is a list,
  \<open>heappush\<close> adds an entry and \<open>heappop\<close> takes the least one out. \<open>heappop\<close> is
  called on a non-empty queue only (the guard \<open>while pq\<close>).
\<close>

definition heappush :: "'a list \<Rightarrow> 'a \<Rightarrow> 'a list" where
  "heappush pq x = pq @ [x]"

definition heappop :: "'a::linorder list \<Rightarrow> 'a \<times> 'a list" where
  "heappop pq = (let m = fold min (tl pq) (hd pq) in (m, remove1 m pq))"

text \<open>
  How one pass of a search loop ends: the loop goes on, it returns at the destination,
  the queue is empty (the loop exits and the search returns \<open>None\<close>), or an exception
  leaves the search.
\<close>

datatype 's ctl = Continue 's | Found 's | Exhausted 's | Raise error

section \<open>Earliest-arrival search\<close>

text \<open>
  The state of \<open>find_earliest_itinerary\<close>. The set \<open>visited\<close> is kept as the list
  of its elements in the order they were added; an element is added only when it is
  not in the set.
\<close>

record estate =
  e_dist :: "string \<rightharpoonup> int"
  e_prev :: "string \<rightharpoonup> flight"
  e_pq :: "(int \<times> string) list"
  e_visited :: "string list"

text \<open>The body of \<open>for f in graph.get(airport, [])\<close> for one flight.\<close>

definition earliest_relax :: "string \<Rightarrow> string \<Rightarrow> int \<Rightarrow> flight \<Rightarrow> estate \<Rightarrow> estate" where
  "earliest_relax start airport cur_time f st =
     (let required = (if airport = start then cur_time else cur_time + MIN_LAYOVER_MINUTES) in
      if depart f \<ge> required then
        (if (case e_dist st (dest f) of None \<Rightarrow> True | Some d \<Rightarrow> arrive f < d) then
           st\<lparr>e_dist := (e_dist st)(dest f \<mapsto> arrive f),
              e_prev := (e_prev st)(dest f \<mapsto> f),
              e_pq := heappush (e_pq st) (arrive f, dest f)\<rparr>
         else st)
      else st)"

text \<open>One pass of \<open>while pq\<close>, the test of the guard included.\<close>

definition earliest_iter :: "graph \<Rightarrow> string \<Rightarrow> string \<Rightarrow> estate \<Rightarrow> estate ctl" where
  "earliest_iter g start dst st =
     (if e_pq st = [] then Exhausted st
      else
        (case heappop (e_pq st) of
           ((cur_time, airport), rest) \<Rightarrow>
             if airport \<in> set (e_visited st) then Continue (st\<lparr>e_pq := rest\<rparr>)
             else
               (let st1 = st\<lparr>e_pq := rest, e_visited := e_visited st @ [airport]\<rparr> in
                if airport = dst then Found st1
                else Continue (fold (earliest_relax start airport cur_time) (graph_get g airport) st1))))"

text \<open>
  The loop of the earliest-arrival search ends on every graph: a pass that finalises an
  airport takes it out of the airports that are in the queue or are the destination of
  a flight and are not visited yet; every other pass shortens the queue.
\<close>

definition graph_dests :: "graph \<Rightarrow> string set" where
  "graph_dests g = dest ` (\<Union>(k, fs) \<in> set g. set fs)"

definition e_pending :: "graph \<Rightarrow> estate \<Rightarrow> string set" where
  "e_pending g st = (snd ` set (e_pq st) \<union> graph_dests g) - set (e_visited st)"

lemma heappop_least:
  assumes "pq \<noteq> []" "heappop pq = (m, rest)"
  shows "m \<in> set pq" "\<forall>x \<in> set pq. m \<le> x" "rest = remove1 m pq"
proof -
  obtain x xs where pq: "pq = x # xs" using assms(1) by (cases pq) auto
  have "fold min xs x = Min (set (x # xs))" by (rule Min.set_eq_fold[symmetric])
  then have m: "m = Min (set pq)"
    using assms(2) by (simp add: heappop_def pq Let_def del: set_simps)
  show "m \<in> set pq" unfolding m using assms(1) by (intro Min_in) auto
  show "\<forall>x \<in> set pq. m \<le> x" unfolding m by auto
  show "rest = remove1 m pq" using assms(2) by (auto simp: heappop_def Let_def)
qed

lemma graph_get_dests: "dest ` set (graph_get g a) \<subseteq> graph_dests g"
proof (cases "map_of g a")
  case None
  then show ?thesis by (simp add: graph_get_def)
next
  case (Some fs)
  then have "(a, fs) \<in> set g" by (rule map_of_SomeD)
  then show ?thesis using Some by (auto simp: graph_get_def graph_dests_def)
qed

lemma earliest_relax_visited [simp]:
  "e_visited (earliest_relax start airport t f st) = e_visited st"
  by (simp add: earliest_relax_def Let_def)

lemma earliest_relax_pq:
  "snd ` set (e_pq (earliest_relax start airport t f st)) \<subseteq> insert (dest f) (snd ` set (e_pq st))"
  by (auto simp: earliest_relax_def Let_def heappush_def)

lemma fold_earliest_relax_visited [simp]:
  "e_visited (fold (earliest_relax start airport t) fs st) = e_visited st"
  by (induction fs arbitrary: st) auto

lemma fold_earliest_relax_pq:
  "snd ` set (e_pq (fold (earliest_relax start airport t) fs st)) \<subseteq> snd ` set (e_pq st) \<union> dest ` set fs"
proof (induction fs arbitrary: st)
  case Nil
  then show ?case by simp
next
  case (Cons f fs)
  show ?case using Cons.IH[of "earliest_relax start airport t f st"] earliest_relax_pq[of start airport t f st]
    by auto
qed

lemma finite_e_pending: "finite (e_pending g st)"
  by (auto simp: e_pending_def graph_dests_def)

lemma earliest_iter_decreases:
  assumes "earliest_iter g start dst st = Continue st'"
  shows "card (e_pending g st') < card (e_pending g st) \<or>
         (card (e_pending g st') \<le> card (e_pending g st) \<and> length (e_pq st') < length (e_pq st))"
proof -
  from assms have ne: "e_pq st \<noteq> []" by (auto simp: earliest_iter_def split: if_splits)
  obtain t a rest where pop: "heappop (e_pq st) = ((t, a), rest)"
    by (metis prod.exhaust)
  note hp = heappop_least[OF ne pop]
  have a_in: "a \<in> snd ` set (e_pq st)" using hp(1) by force
  have rest_sub: "set rest \<subseteq> set (e_pq st)" using hp(3) set_remove1_subset[of "(t, a)" "e_pq st"] by simp
  show ?thesis
  proof (cases "a \<in> set (e_visited st)")
    case True
    with assms ne pop have st': "st' = st\<lparr>e_pq := rest\<rparr>"
      by (simp add: earliest_iter_def)
    have "e_pending g st' \<subseteq> e_pending g st"
      using rest_sub by (auto simp: st' e_pending_def)
    then have "card (e_pending g st') \<le> card (e_pending g st)"
      by (rule card_mono[OF finite_e_pending])
    moreover have "length (e_pq st') < length (e_pq st)"
      using hp(1) by (simp add: st' hp(3) length_remove1) (cases "e_pq st"; simp)
    ultimately show ?thesis by blast
  next
    case False
    with assms ne pop have adst: "a \<noteq> dst" and
      st': "st' = fold (earliest_relax start a t) (graph_get g a)
              (st\<lparr>e_pq := rest, e_visited := e_visited st @ [a]\<rparr>)"
      by (auto simp: earliest_iter_def Let_def split: if_splits)
    have "snd ` set (e_pq st') \<subseteq> snd ` set rest \<union> graph_dests g"
      using fold_earliest_relax_pq[of start a t "graph_get g a" "st\<lparr>e_pq := rest, e_visited := e_visited st @ [a]\<rparr>"]
        graph_get_dests[of g a] by (auto simp: st')
    then have sub: "e_pending g st' \<subseteq> e_pending g st - {a}"
      using rest_sub by (auto simp: e_pending_def st')
    have "a \<in> e_pending g st" using a_in False by (simp add: e_pending_def)
    then have "e_pending g st - {a} \<subset> e_pending g st" by auto
    with sub have "e_pending g st' \<subset> e_pending g st" by auto
    then have "card (e_pending g st') < card (e_pending g st)"
      by (rule psubset_card_mono[OF finite_e_pending])
    then show ?thesis by blast
  qed
qed

function earliest_loop :: "graph \<Rightarrow> string \<Rightarrow> string \<Rightarrow> estate \<Rightarrow> estate ctl" where
  "earliest_loop g start dst st =
     (case earliest_iter g start dst st of
        Continue st' \<Rightarrow> earliest_loop g start dst st'
      | Found st' \<Rightarrow> Found st'
      | Exhausted st' \<Rightarrow> Exhausted st'
      | Raise e \<Rightarrow> Raise e)"
  by pat_completeness auto
termination
proof (relation "(\<lambda>(g, start, dst, st). card (e_pending g st)) <*mlex*>
                 measure (\<lambda>(g, start, dst, st). length (e_pq st))")
  show "wf ((\<lambda>(g, start, dst, st). card (e_pending g st)) <*mlex*>
                 measure (\<lambda>(g, start, dst, st). length (e_pq st)))"
    by (simp add: wf_mlex)
next
  fix g start dst st st'
  assume "earliest_iter g start dst st = Continue st'"
  from earliest_iter_decreases[OF this]
  show "((g, start, dst, st'), (g, start, dst, st)) \<in>
          (\<lambda>(g, start, dst, st). card (e_pending g st)) <*mlex*>
          measure (\<lambda>(g, start, dst, st). length (e_pq st))"
    by (auto intro: mlex_less mlex_leq)
qed

declare earliest_loop.simps [simp del]

definition earliest_init :: "string \<Rightarrow> int \<Rightarrow> estate" where
  "earliest_init start earliest_departure =
     \<lparr>e_dist = [start \<mapsto> earliest_departure], e_prev = Map.empty,
      e_pq = [(earliest_departure, start)], e_visited = []\<rparr>"

text \<open>
  The result of the earliest-arrival search: \<open>None\<close> when the reconstruction does
  not return, \<open>Some None\<close> for Python's \<open>None\<close> and \<open>Some (Some it)\<close> for an
  itinerary.
\<close>

definition find_earliest_itinerary ::
  "graph \<Rightarrow> string \<Rightarrow> string \<Rightarrow> int \<Rightarrow> itinerary option option" where
  "find_earliest_itinerary g start dst earliest_departure =
     (case earliest_loop g start dst (earliest_init start earliest_departure) of
        Found st \<Rightarrow> map_option Some (reconstruct_itinerary (e_prev st) dst)
      | _ \<Rightarrow> Some None)"

section \<open>Cheapest-fare search\<close>

record cstate =
  c_dist :: "string \<rightharpoonup> int"
  c_prev :: "string \<rightharpoonup> flight"
  c_pq :: "(int \<times> int \<times> string) list"
  c_visited :: "(string \<times> int) list"

definition cheapest_relax ::
  "string \<Rightarrow> string \<Rightarrow> string \<Rightarrow> int \<Rightarrow> int \<Rightarrow> flight \<Rightarrow> cstate \<Rightarrow> error + cstate" where
  "cheapest_relax start cabin airport cost arr_time f st =
     (let earliest_allowed = (if airport = start then arr_time else arr_time + MIN_LAYOVER_MINUTES) in
      if depart f \<ge> earliest_allowed then
        (case price_for f cabin of
           Inl e \<Rightarrow> Inl e
         | Inr p \<Rightarrow>
             (let new_cost = cost + p in
              if (case c_dist st (dest f) of None \<Rightarrow> True | Some d \<Rightarrow> new_cost < d) then
                Inr (st\<lparr>c_dist := (c_dist st)(dest f \<mapsto> new_cost),
                       c_prev := (c_prev st)(dest f \<mapsto> f),
                       c_pq := heappush (c_pq st) (new_cost, arrive f, dest f)\<rparr>)
              else Inr st))
      else Inr st)"

fun cheapest_relax_all ::
  "string \<Rightarrow> string \<Rightarrow> string \<Rightarrow> int \<Rightarrow> int \<Rightarrow> flight list \<Rightarrow> cstate \<Rightarrow> error + cstate" where
  "cheapest_relax_all start cabin airport cost arr_time [] st = Inr st"
| "cheapest_relax_all start cabin airport cost arr_time (f # fs) st =
     (case cheapest_relax start cabin airport cost arr_time f st of
        Inl e \<Rightarrow> Inl e
      | Inr st' \<Rightarrow> cheapest_relax_all start cabin airport cost arr_time fs st')"

definition cheapest_iter :: "graph \<Rightarrow> string \<Rightarrow> string \<Rightarrow> string \<Rightarrow> cstate \<Rightarrow> cstate ctl" where
  "cheapest_iter g start dst cabin st =
     (if c_pq st = [] then Exhausted st
      else
        (case heappop (c_pq st) of
           ((cost, arr_time, airport), rest) \<Rightarrow>
             if (airport, cost) \<in> set (c_visited st) then Continue (st\<lparr>c_pq := rest\<rparr>)
             else
               (let st1 = st\<lparr>c_pq := rest, c_visited := c_visited st @ [(airport, cost)]\<rparr> in
                if airport = dst then Found st1
                else
                  (case cheapest_relax_all start cabin airport cost arr_time (graph_get g airport) st1 of
                     Inl e \<Rightarrow> Raise e
                   | Inr st2 \<Rightarrow> Continue st2))))"

text \<open>
  The loop of the cheapest-fare search need not end on every graph (fares may be negative
  and a flight may arrive before it departs), so it is a partial function.
\<close>

partial_function (option) cheapest_loop ::
  "graph \<Rightarrow> string \<Rightarrow> string \<Rightarrow> string \<Rightarrow> cstate \<Rightarrow> cstate ctl option" where
  "cheapest_loop g start dst cabin st =
     (case cheapest_iter g start dst cabin st of
        Continue st' \<Rightarrow> cheapest_loop g start dst cabin st'
      | Found st' \<Rightarrow> Some (Found st')
      | Exhausted st' \<Rightarrow> Some (Exhausted st')
      | Raise e \<Rightarrow> Some (Raise e))"

declare cheapest_loop.simps [code]

definition cheapest_init :: "string \<Rightarrow> int \<Rightarrow> cstate" where
  "cheapest_init start earliest_departure =
     \<lparr>c_dist = [start \<mapsto> 0], c_prev = Map.empty,
      c_pq = [(0, earliest_departure, start)], c_visited = []\<rparr>"

text \<open>
  The result of a search: \<open>None\<close> when it does not return, \<open>Some (Inl e)\<close> when it
  raises, \<open>Some (Inr None)\<close> for Python's \<open>None\<close> and \<open>Some (Inr (Some it))\<close> for an
  itinerary.
\<close>

definition find_cheapest_itinerary ::
  "graph \<Rightarrow> string \<Rightarrow> string \<Rightarrow> int \<Rightarrow> string \<Rightarrow> (error + itinerary option) option" where
  "find_cheapest_itinerary g start dst earliest_departure cabin =
     (case cheapest_loop g start dst cabin (cheapest_init start earliest_departure) of
        None \<Rightarrow> None
      | Some (Found st) \<Rightarrow>
          map_option (\<lambda>it. Inr (Some it)) (reconstruct_itinerary (c_prev st) dst)
      | Some (Raise e) \<Rightarrow> Some (Inl e)
      | Some _ \<Rightarrow> Some (Inr None))"

section \<open>Feasible itineraries\<close>

text \<open>
  The connection-time invariant of an itinerary: each leg starts where the leg before it
  ends, and departs at least \<open>MIN_LAYOVER_MINUTES\<close> after that leg arrives.
\<close>

fun connected :: "flight list \<Rightarrow> bool" where
  "connected [] = True"
| "connected [f] = True"
| "connected (f # h # fs) =
     (dest f = origin h \<and> arrive f + MIN_LAYOVER_MINUTES \<le> depart h \<and> connected (h # fs))"

text \<open>
  A feasible itinerary from \<open>start\<close> to \<open>dst\<close> over the flights \<open>fls\<close> of the schedule:
  a non-empty connected sequence of scheduled flights that leaves \<open>start\<close> at or after
  the requested time and ends at \<open>dst\<close>.
\<close>

definition feasible :: "flight list \<Rightarrow> string \<Rightarrow> string \<Rightarrow> int \<Rightarrow> flight list \<Rightarrow> bool" where
  "feasible fls start dst earliest_departure p \<longleftrightarrow>
     p \<noteq> [] \<and> set p \<subseteq> set fls \<and> origin (hd p) = start \<and> dest (last p) = dst \<and>
     earliest_departure \<le> depart (hd p) \<and> connected p"

text \<open>The sum of the fares of a flight list in one cabin, for the three cabin tags.\<close>

definition fare :: "string \<Rightarrow> flight \<Rightarrow> int" where
  "fare cabin f =
     (if cabin = ''economy'' then economy f else if cabin = ''business'' then business f
      else first f)"

definition valid_cabin :: "string \<Rightarrow> bool" where
  "valid_cabin cabin \<longleftrightarrow> cabin = ''economy'' \<or> cabin = ''business'' \<or> cabin = ''first''"

section \<open>Running a loop pass by pass\<close>

text \<open>
  \<open>passes iter n st\<close> is the state of a search loop after \<open>n\<close> passes from \<open>st\<close>, or
  the way the loop ended before that.
\<close>

fun passes :: "('s \<Rightarrow> 's ctl) \<Rightarrow> nat \<Rightarrow> 's \<Rightarrow> 's ctl" where
  "passes iter 0 st = Continue st"
| "passes iter (Suc n) st =
     (case iter st of
        Continue st' \<Rightarrow> passes iter n st'
      | Found st' \<Rightarrow> Found st'
      | Exhausted st' \<Rightarrow> Exhausted st'
      | Raise e \<Rightarrow> Raise e)"

section \<open>Example schedules\<close>

text \<open>Three concrete flights, used to run the definitions on an input.\<close>

definition ex_AB :: flight where
  "ex_AB = \<lparr>origin = ''A'', dest = ''B'', flight_number = ''X1'', depart = 480, arrive = 540,
     economy = 100, business = 200, first = 300\<rparr>"

definition ex_BC :: flight where
  "ex_BC = \<lparr>origin = ''B'', dest = ''C'', flight_number = ''X2'', depart = 600, arrive = 660,
     economy = 50, business = 150, first = 250\<rparr>"

definition ex_AC :: flight where
  "ex_AC = \<lparr>origin = ''A'', dest = ''C'', flight_number = ''X3'', depart = 700, arrive = 900,
     economy = 400, business = 500, first = 600\<rparr>"

text \<open>
  Two flights from S to U, the earlier one dearer, and a connection from U to D that only
  the earlier one reaches with the minimum layover.
\<close>

definition ex_SU_early :: flight where
  "ex_SU_early = \<lparr>origin = ''S'', dest = ''U'', flight_number = ''F1'', depart = 480, arrive = 540,
     economy = 10, business = 10, first = 10\<rparr>"

definition ex_SU_late :: flight where
  "ex_SU_late = \<lparr>origin = ''S'', dest = ''U'', flight_number = ''F2'', depart = 660, arrive = 720,
     economy = 5, business = 5, first = 5\<rparr>"

definition ex_UD :: flight where
  "ex_UD = \<lparr>origin = ''U'', dest = ''D'', flight_number = ''F3'', depart = 630, arrive = 690,
     economy = 1, business = 1, first = 1\<rparr>"

text \<open>A round trip from A to B and back.\<close>

definition ex_BA :: flight where
  "ex_BA = \<lparr>origin = ''B'', dest = ''A'', flight_number = ''X4'', depart = 600, arrive = 660,
     economy = 70, business = 170, first = 270\<rparr>"

section \<open>Properties of the flight record and the route graph\<close>

lemma graph_get_setdefault_append:
  "graph_get (setdefault_append g k f) a =
     (if a = k then graph_get g a @ [f] else graph_get g a)"
  by (induction g) (auto simp: graph_get_def)

lemma keys_setdefault_append:
  "fst ` set (setdefault_append g k f) = insert k (fst ` set g)"
proof (induction g)
  case Nil
  then show ?case by simp
next
  case (Cons p g)
  obtain k' fs where p: "p = (k', fs)" by (cases p)
  show ?case
    using Cons.IH by (cases "k' = k") (simp_all add: p insert_commute)
qed

lemma map_of_setdefault_append_None:
  "map_of (setdefault_append g k f) a = None \<longleftrightarrow> map_of g a = None \<and> a \<noteq> k"
  by (auto simp: map_of_eq_None_iff keys_setdefault_append)

lemma graph_get_fold:
  "graph_get (fold (\<lambda>f g. setdefault_append g (origin f) f) fls g) a =
     graph_get g a @ filter (\<lambda>f. origin f = a) fls"
  by (induction fls arbitrary: g) (auto simp: graph_get_setdefault_append)

lemma map_of_fold_None:
  "map_of (fold (\<lambda>f g. setdefault_append g (origin f) f) fls g) a = None \<longleftrightarrow>
     map_of g a = None \<and> a \<notin> origin ` set fls"
  by (induction fls arbitrary: g) (auto simp: map_of_setdefault_append_None)

lemma distinct_keys_setdefault_append:
  "distinct (map fst g) \<Longrightarrow> distinct (map fst (setdefault_append g k f))"
proof (induction g)
  case Nil
  then show ?case by simp
next
  case (Cons p g)
  obtain k' fs where p: "p = (k', fs)" by (cases p)
  show ?case
  proof (cases "k' = k")
    case True
    with Cons.prems p show ?thesis by simp
  next
    case False
    with Cons p show ?thesis by (simp add: keys_setdefault_append)
  qed
qed

lemma distinct_keys_fold:
  "distinct (map fst g) \<Longrightarrow>
   distinct (map fst (fold (\<lambda>f g. setdefault_append g (origin f) f) fls g))"
  by (induction fls arbitrary: g) (auto simp: distinct_keys_setdefault_append)

text \<open>
  C7: \<open>price_for\<close> returns the economy, business or first fare for the tag of that name,
  and for every other tag it raises \<open>ValueError\<close>; it returns a fare for exactly the
  three recognised tags. The flight is an immutable value: the function has no other
  result than the fare or the error.
\<close>

theorem price_for_total_on_cabins:
  "price_for f ''economy'' = Inr (economy f) \<and>
   price_for f ''business'' = Inr (business f) \<and>
   price_for f ''first'' = Inr (first f) \<and>
   (cabin \<notin> {''economy'', ''business'', ''first''} \<longrightarrow> price_for f cabin = Inl (ValueError '''')) \<and>
   ((\<exists>p. price_for f cabin = Inr p) \<longleftrightarrow> cabin \<in> {''economy'', ''business'', ''first''})"
  by (auto simp: price_for_def)

theorem price_for_total_on_cabins_witness:
  "''premium'' \<notin> {''economy'', ''business'', ''first''} \<and>
   price_for \<lparr>origin = ''A'', dest = ''B'', flight_number = ''X1'', depart = 480, arrive = 540,
      economy = 100, business = 200, first = 300\<rparr> ''premium'' = Inl (ValueError '''') \<and>
   price_for \<lparr>origin = ''A'', dest = ''B'', flight_number = ''X1'', depart = 480, arrive = 540,
      economy = 100, business = 200, first = 300\<rparr> ''business'' = Inr 200"
  using price_for_total_on_cabins
    [of "\<lparr>origin = ''A'', dest = ''B'', flight_number = ''X1'', depart = 480, arrive = 540,
      economy = 100, business = 200, first = 300\<rparr>" "''premium''"]
  by simp

lemma build_graph_lookup:
  "graph_get (build_graph fls) a = filter (\<lambda>f. origin f = a) fls \<and>
   (map_of (build_graph fls) a = None \<longleftrightarrow> a \<notin> origin ` set fls) \<and>
   distinct (map fst (build_graph fls)) \<and>
   (a \<notin> origin ` set fls \<longrightarrow> graph_get (build_graph fls) a = [])"
proof -
  have 1: "graph_get (build_graph fls) a = filter (\<lambda>f. origin f = a) fls"
    by (simp add: build_graph_def graph_get_fold) (simp add: graph_get_def)
  have 2: "map_of (build_graph fls) a = None \<longleftrightarrow> a \<notin> origin ` set fls"
    by (simp add: build_graph_def map_of_fold_None)
  have 3: "distinct (map fst (build_graph fls))"
    by (simp add: build_graph_def distinct_keys_fold)
  have 4: "a \<notin> origin ` set fls \<longrightarrow> graph_get (build_graph fls) a = []"
    using 2 by (auto simp: graph_get_def)
  from 1 2 3 4 show ?thesis by blast
qed

section \<open>The cheapest-fare search on the example schedule\<close>

text \<open>
  C1: an itinerary returned by \<open>find_cheapest_itinerary\<close> is feasible and has the least
  total price among the feasible itineraries, and \<open>None\<close> is returned only when no
  feasible itinerary exists. The code does not do this. On the schedule of the two
  flights from S to U and the connection from U to D, departing at or after 07:00, the
  search returns the later flight to U followed by the connection, which leaves U
  before that flight has arrived: the predecessor of U is the flight of the cheaper
  label, while D was reached from the pop of U at the dearer label. The only feasible
  itinerary is the earlier flight followed by the connection. With the two flights to U
  in the other order the search returns \<open>None\<close> although that itinerary is feasible.
\<close>

theorem cheapest_returns_infeasible_itinerary:
  "find_cheapest_itinerary (build_graph [ex_SU_early, ex_SU_late, ex_UD]) ''S'' ''D'' 420 ''economy''
     = Some (Inr (Some (Itinerary [ex_SU_late, ex_UD]))) \<and>
   \<not> feasible [ex_SU_early, ex_SU_late, ex_UD] ''S'' ''D'' 420 [ex_SU_late, ex_UD] \<and>
   feasible [ex_SU_early, ex_SU_late, ex_UD] ''S'' ''D'' 420 [ex_SU_early, ex_UD] \<and>
   find_cheapest_itinerary (build_graph [ex_SU_late, ex_SU_early, ex_UD]) ''S'' ''D'' 420 ''economy''
     = Some (Inr None)"
proof -
  have "find_cheapest_itinerary (build_graph [ex_SU_early, ex_SU_late, ex_UD]) ''S'' ''D'' 420 ''economy''
     = Some (Inr (Some (Itinerary [ex_SU_late, ex_UD])))"
    by code_simp
  moreover have "\<not> feasible [ex_SU_early, ex_SU_late, ex_UD] ''S'' ''D'' 420 [ex_SU_late, ex_UD]"
    by (simp add: feasible_def ex_SU_late_def ex_UD_def MIN_LAYOVER_MINUTES_def)
  moreover have "feasible [ex_SU_early, ex_SU_late, ex_UD] ''S'' ''D'' 420 [ex_SU_early, ex_UD]"
    by (simp add: feasible_def ex_SU_early_def ex_UD_def MIN_LAYOVER_MINUTES_def)
  moreover have "find_cheapest_itinerary (build_graph [ex_SU_late, ex_SU_early, ex_UD]) ''S'' ''D'' 420 ''economy''
     = Some (Inr None)"
    by code_simp
  ultimately show ?thesis by blast
qed

section \<open>Loops and passes\<close>

lemma passes_invariant:
  assumes "passes iter n st = r" and "I st"
    and step: "\<And>s s'. I s \<Longrightarrow> iter s = Continue s' \<Longrightarrow> I s'"
  shows "case r of Continue s' \<Rightarrow> I s' | _ \<Rightarrow> \<exists>s. I s \<and> iter s = r"
  using assms(1,2)
proof (induction n arbitrary: st)
  case 0
  then show ?case by auto
next
  case (Suc n)
  show ?case
  proof (cases "iter st")
    case (Continue s')
    with Suc.prems have "passes iter n s' = r" "I s'" by (auto intro: step)
    then show ?thesis by (rule Suc.IH)
  next
    case (Found s')
    with Suc.prems show ?thesis by auto
  next
    case (Exhausted s')
    with Suc.prems show ?thesis by auto
  next
    case (Raise e)
    with Suc.prems show ?thesis by auto
  qed
qed

lemma earliest_loop_passes:
  "\<exists>n. passes (earliest_iter g start dst) n st = earliest_loop g start dst st"
proof (induction g start dst st rule: earliest_loop.induct)
  case (1 g start dst st)
  show ?case
  proof (cases "earliest_iter g start dst st")
    case (Continue s')
    from 1[OF this] obtain n where
      "passes (earliest_iter g start dst) n s' = earliest_loop g start dst s'" by blast
    then have "passes (earliest_iter g start dst) (Suc n) st = earliest_loop g start dst st"
      using Continue by (simp add: earliest_loop.simps[of g start dst st])
    then show ?thesis by blast
  next
    case (Found s')
    then have "passes (earliest_iter g start dst) (Suc 0) st = earliest_loop g start dst st"
      by (simp add: earliest_loop.simps[of g start dst st])
    then show ?thesis by blast
  next
    case (Exhausted s')
    then have "passes (earliest_iter g start dst) (Suc 0) st = earliest_loop g start dst st"
      by (simp add: earliest_loop.simps[of g start dst st])
    then show ?thesis by blast
  next
    case (Raise e)
    then have "passes (earliest_iter g start dst) (Suc 0) st = earliest_loop g start dst st"
      by (simp add: earliest_loop.simps[of g start dst st])
    then show ?thesis by blast
  qed
qed

lemma earliest_iter_not_Raise: "earliest_iter g start dst st \<noteq> Raise e"
  by (auto simp: earliest_iter_def Let_def split: prod.splits)

lemma earliest_loop_ends:
  "(\<exists>st'. earliest_loop g start dst st = Found st') \<or> (\<exists>st'. earliest_loop g start dst st = Exhausted st')"
proof (induction g start dst st rule: earliest_loop.induct)
  case (1 g start dst st)
  show ?case
    using 1 earliest_iter_not_Raise[of g start dst st]
    by (cases "earliest_iter g start dst st") (auto simp: earliest_loop.simps[of g start dst st])
qed

lemma cheapest_loop_passes:
  assumes "cheapest_loop g start dst cabin st = Some r"
  shows "(\<exists>n. passes (cheapest_iter g start dst cabin) n st = r) \<and> (\<forall>s. r \<noteq> Continue s)"
proof (rule cheapest_loop.raw_induct[OF _ assms])
  fix loop g start dst cabin st r
  assume IH: "\<And>g start dst cabin st r. loop g start dst cabin st = Some r \<Longrightarrow>
      (\<exists>n. passes (cheapest_iter g start dst cabin) n st = r) \<and> (\<forall>s. r \<noteq> Continue s)"
    and eq: "(case cheapest_iter g start dst cabin st of
        Continue st' \<Rightarrow> loop g start dst cabin st'
      | Found st' \<Rightarrow> Some (Found st') | Exhausted st' \<Rightarrow> Some (Exhausted st')
      | Raise e \<Rightarrow> Some (Raise e)) = Some r"
  show "(\<exists>n. passes (cheapest_iter g start dst cabin) n st = r) \<and> (\<forall>s. r \<noteq> Continue s)"
  proof (cases "cheapest_iter g start dst cabin st")
    case (Continue s')
    with eq have "loop g start dst cabin s' = Some r" by simp
    from IH[OF this] obtain n where
      n: "passes (cheapest_iter g start dst cabin) n s' = r" and nc: "\<forall>s. r \<noteq> Continue s" by blast
    from n Continue have "passes (cheapest_iter g start dst cabin) (Suc n) st = r" by simp
    with nc show ?thesis by blast
  next
    case (Found s')
    with eq have "passes (cheapest_iter g start dst cabin) (Suc 0) st = r" by auto
    moreover from Found eq have "\<forall>s. r \<noteq> Continue s" by auto
    ultimately show ?thesis by blast
  next
    case (Exhausted s')
    with eq have "passes (cheapest_iter g start dst cabin) (Suc 0) st = r" by auto
    moreover from Exhausted eq have "\<forall>s. r \<noteq> Continue s" by auto
    ultimately show ?thesis by blast
  next
    case (Raise e)
    with eq have "passes (cheapest_iter g start dst cabin) (Suc 0) st = r" by auto
    moreover from Raise eq have "\<forall>s. r \<noteq> Continue s" by auto
    ultimately show ?thesis by blast
  qed
qed

lemma passes_cheapest_loop:
  assumes "passes (cheapest_iter g start dst cabin) n st = r" "\<forall>s. r \<noteq> Continue s"
  shows "cheapest_loop g start dst cabin st = Some r"
  using assms
proof (induction n arbitrary: st)
  case 0
  then show ?case by auto
next
  case (Suc n)
  show ?case
  proof (cases "cheapest_iter g start dst cabin st")
    case (Continue s')
    with Suc.prems have "passes (cheapest_iter g start dst cabin) n s' = r" by simp
    from Suc.IH[OF this Suc.prems(2)] Continue show ?thesis
      by (subst cheapest_loop.simps) simp
  next
    case (Found s')
    with Suc.prems show ?thesis by (subst cheapest_loop.simps) auto
  next
    case (Exhausted s')
    with Suc.prems show ?thesis by (subst cheapest_loop.simps) auto
  next
    case (Raise e)
    with Suc.prems show ?thesis by (subst cheapest_loop.simps) auto
  qed
qed

section \<open>Case analysis of one relaxation and one pass\<close>

lemma earliest_relax_cases:
  obtains (same) "earliest_relax start a t f st = st"
  | (update) "(if a = start then t else t + MIN_LAYOVER_MINUTES) \<le> depart f"
      "case e_dist st (dest f) of None \<Rightarrow> True | Some d \<Rightarrow> arrive f < d"
      "earliest_relax start a t f st =
         st\<lparr>e_dist := (e_dist st)(dest f \<mapsto> arrive f), e_prev := (e_prev st)(dest f \<mapsto> f),
            e_pq := e_pq st @ [(arrive f, dest f)]\<rparr>"
proof (cases "(if a = start then t else t + MIN_LAYOVER_MINUTES) \<le> depart f \<and>
    (case e_dist st (dest f) of None \<Rightarrow> True | Some d \<Rightarrow> arrive f < d)")
  case True
  then show ?thesis
    using update by (simp add: earliest_relax_def Let_def heappush_def)
next
  case False
  then have "earliest_relax start a t f st = st"
    by (auto simp: earliest_relax_def Let_def)
  then show ?thesis by (rule same)
qed

lemma cheapest_relax_cases:
  assumes "cheapest_relax start cabin a cost t f st = Inr st'"
  obtains (same) "st' = st"
  | (update) p where "price_for f cabin = Inr p"
      "(if a = start then t else t + MIN_LAYOVER_MINUTES) \<le> depart f"
      "case c_dist st (dest f) of None \<Rightarrow> True | Some d \<Rightarrow> cost + p < d"
      "st' = st\<lparr>c_dist := (c_dist st)(dest f \<mapsto> cost + p), c_prev := (c_prev st)(dest f \<mapsto> f),
            c_pq := c_pq st @ [(cost + p, arrive f, dest f)]\<rparr>"
  using assms
  by (auto simp: cheapest_relax_def Let_def heappush_def split: if_splits sum.splits)

lemma fold_earliest_relax_invariant:
  assumes "I st"
    and "\<And>f s. f \<in> set fs \<Longrightarrow> I s \<Longrightarrow> I (earliest_relax start a t f s)"
  shows "I (fold (earliest_relax start a t) fs st)"
  using assms by (induction fs arbitrary: st) auto

lemma cheapest_relax_all_invariant:
  assumes "cheapest_relax_all start cabin a cost t fs st = Inr st'" and "I st"
    and "\<And>f s s'. f \<in> set fs \<Longrightarrow> I s \<Longrightarrow> cheapest_relax start cabin a cost t f s = Inr s' \<Longrightarrow> I s'"
  shows "I st'"
  using assms
proof (induction fs arbitrary: st)
  case Nil
  then show ?case by simp
next
  case (Cons f fs)
  from Cons.prems(1) obtain s1 where
    s1: "cheapest_relax start cabin a cost t f st = Inr s1"
    and rest: "cheapest_relax_all start cabin a cost t fs s1 = Inr st'"
    by (auto split: sum.splits)
  have "I s1" using Cons.prems(3)[OF _ Cons.prems(2) s1] by simp
  show ?case
    by (rule Cons.IH[OF rest \<open>I s1\<close>]) (auto intro: Cons.prems(3))
qed

lemma earliest_iter_cases:
  obtains (exhausted) "e_pq st = []" "earliest_iter g start dst st = Exhausted st"
  | (skip) t a rest where "e_pq st \<noteq> []" "heappop (e_pq st) = ((t, a), rest)"
      "a \<in> set (e_visited st)" "earliest_iter g start dst st = Continue (st\<lparr>e_pq := rest\<rparr>)"
  | (found) t rest where "e_pq st \<noteq> []" "heappop (e_pq st) = ((t, dst), rest)"
      "dst \<notin> set (e_visited st)"
      "earliest_iter g start dst st = Found (st\<lparr>e_pq := rest, e_visited := e_visited st @ [dst]\<rparr>)"
  | (relax) t a rest where "e_pq st \<noteq> []" "heappop (e_pq st) = ((t, a), rest)"
      "a \<notin> set (e_visited st)" "a \<noteq> dst"
      "earliest_iter g start dst st =
         Continue (fold (earliest_relax start a t) (graph_get g a)
                     (st\<lparr>e_pq := rest, e_visited := e_visited st @ [a]\<rparr>))"
proof (cases "e_pq st = []")
  case True
  then show ?thesis using exhausted by (simp add: earliest_iter_def)
next
  case False
  obtain t a rest where pop: "heappop (e_pq st) = ((t, a), rest)"
    by (metis prod.exhaust)
  show ?thesis
  proof (cases "a \<in> set (e_visited st)")
    case True
    show ?thesis using skip[OF False pop True] False pop True by (simp add: earliest_iter_def)
  next
    case nv: False
    show ?thesis
    proof (cases "a = dst")
      case True
      show ?thesis using found[of t rest] False pop nv True by (simp add: earliest_iter_def)
    next
      case ne: False
      show ?thesis using relax[OF False pop nv ne] False pop nv ne
        by (simp add: earliest_iter_def)
    qed
  qed
qed

lemma cheapest_iter_cases:
  obtains (exhausted) "c_pq st = []" "cheapest_iter g start dst cabin st = Exhausted st"
  | (skip) cost t a rest where "c_pq st \<noteq> []" "heappop (c_pq st) = ((cost, t, a), rest)"
      "(a, cost) \<in> set (c_visited st)"
      "cheapest_iter g start dst cabin st = Continue (st\<lparr>c_pq := rest\<rparr>)"
  | (found) cost t rest where "c_pq st \<noteq> []" "heappop (c_pq st) = ((cost, t, dst), rest)"
      "(dst, cost) \<notin> set (c_visited st)"
      "cheapest_iter g start dst cabin st =
         Found (st\<lparr>c_pq := rest, c_visited := c_visited st @ [(dst, cost)]\<rparr>)"
  | (raise) cost t a rest e where "c_pq st \<noteq> []" "heappop (c_pq st) = ((cost, t, a), rest)"
      "(a, cost) \<notin> set (c_visited st)" "a \<noteq> dst"
      "cheapest_relax_all start cabin a cost t (graph_get g a)
         (st\<lparr>c_pq := rest, c_visited := c_visited st @ [(a, cost)]\<rparr>) = Inl e"
      "cheapest_iter g start dst cabin st = Raise e"
  | (relax) cost t a rest st2 where "c_pq st \<noteq> []" "heappop (c_pq st) = ((cost, t, a), rest)"
      "(a, cost) \<notin> set (c_visited st)" "a \<noteq> dst"
      "cheapest_relax_all start cabin a cost t (graph_get g a)
         (st\<lparr>c_pq := rest, c_visited := c_visited st @ [(a, cost)]\<rparr>) = Inr st2"
      "cheapest_iter g start dst cabin st = Continue st2"
proof (cases "c_pq st = []")
  case True
  then show ?thesis using exhausted by (simp add: cheapest_iter_def)
next
  case False
  obtain cost t a rest where pop: "heappop (c_pq st) = ((cost, t, a), rest)"
    by (metis prod.exhaust)
  show ?thesis
  proof (cases "(a, cost) \<in> set (c_visited st)")
    case True
    show ?thesis using skip[OF False pop True] False pop True by (simp add: cheapest_iter_def)
  next
    case nv: False
    show ?thesis
    proof (cases "a = dst")
      case True
      show ?thesis using found[of cost t rest] False pop nv True by (simp add: cheapest_iter_def)
    next
      case ne: False
      show ?thesis
      proof (cases "cheapest_relax_all start cabin a cost t (graph_get g a)
         (st\<lparr>c_pq := rest, c_visited := c_visited st @ [(a, cost)]\<rparr>)")
        case (Inl e)
        show ?thesis using raise[OF False pop nv ne Inl] False pop nv ne Inl
          by (simp add: cheapest_iter_def)
      next
        case (Inr st2)
        show ?thesis using relax[OF False pop nv ne Inr] False pop nv ne Inr
          by (simp add: cheapest_iter_def)
      qed
    qed
  qed
qed

section \<open>Every queued airport other than the start has a predecessor\<close>

lemma reconstruct_walk_extends:
  assumes "reconstruct_walk prev cur acc = Some p"
  shows "\<exists>q. p = acc @ q \<and> (prev cur \<noteq> None \<longrightarrow> q \<noteq> [])"
proof (rule reconstruct_walk.raw_induct[OF _ assms])
  fix walk prev cur acc p
  assume IH: "\<And>prev cur acc p. walk prev cur acc = Some p \<Longrightarrow>
      \<exists>q. p = acc @ q \<and> (prev cur \<noteq> None \<longrightarrow> q \<noteq> [])"
    and eq: "(case prev cur of None \<Rightarrow> Some acc
      | Some fl \<Rightarrow> walk prev (origin fl) (acc @ [fl])) = Some p"
  show "\<exists>q. p = acc @ q \<and> (prev cur \<noteq> None \<longrightarrow> q \<noteq> [])"
  proof (cases "prev cur")
    case None
    with eq show ?thesis by simp
  next
    case (Some fl)
    with eq have "walk prev (origin fl) (acc @ [fl]) = Some p" by simp
    from IH[OF this] obtain q where "p = (acc @ [fl]) @ q" by blast
    then have "p = acc @ (fl # q)" by simp
    then show ?thesis by blast
  qed
qed

lemma reconstruct_itinerary_nonempty:
  assumes "reconstruct_itinerary prev dst = Some it" "prev dst \<noteq> None"
  shows "flights it \<noteq> []"
proof -
  from assms(1) obtain p where p: "reconstruct_walk prev dst [] = Some p" "it = Itinerary (rev p)"
    by (auto simp: reconstruct_itinerary_def)
  from reconstruct_walk_extends[OF p(1)] assms(2) have "p \<noteq> []" by auto
  with p(2) show ?thesis by simp
qed

lemma reconstruct_itinerary_empty_map:
  "reconstruct_itinerary Map.empty dst = Some (Itinerary [])"
  by (simp add: reconstruct_itinerary_def reconstruct_walk.simps)

definition e_queued_has_prev :: "string \<Rightarrow> estate \<Rightarrow> bool" where
  "e_queued_has_prev start st \<longleftrightarrow> (\<forall>t a. (t, a) \<in> set (e_pq st) \<longrightarrow> a = start \<or> e_prev st a \<noteq> None)"

definition c_queued_has_prev :: "string \<Rightarrow> cstate \<Rightarrow> bool" where
  "c_queued_has_prev start st \<longleftrightarrow> (\<forall>c t a. (c, t, a) \<in> set (c_pq st) \<longrightarrow> a = start \<or> c_prev st a \<noteq> None)"

lemma heappop_set:
  assumes "pq \<noteq> []" "heappop pq = (m, rest)"
  shows "m \<in> set pq" "set rest \<subseteq> set pq"
  using heappop_least[OF assms] set_remove1_subset[of m pq] by auto

lemma e_queued_has_prev_relax:
  "e_queued_has_prev start s \<Longrightarrow> e_queued_has_prev start (earliest_relax start a t f s)"
  by (cases rule: earliest_relax_cases[of start a t f s])
     (auto simp: e_queued_has_prev_def)

lemma e_queued_has_prev_step:
  assumes "e_queued_has_prev start st" "earliest_iter g start dst st = Continue st'"
  shows "e_queued_has_prev start st'"
proof (cases rule: earliest_iter_cases[of st g start dst])
  case exhausted
  with assms show ?thesis by simp
next
  case (skip t a rest)
  from assms(2) skip(4) have st': "st' = st\<lparr>e_pq := rest\<rparr>" by simp
  show ?thesis unfolding st'
    using assms(1) heappop_set(2)[OF skip(1,2)] by (auto simp: e_queued_has_prev_def)
next
  case (found t rest)
  with assms show ?thesis by simp
next
  case (relax t a rest)
  have "e_queued_has_prev start (st\<lparr>e_pq := rest, e_visited := e_visited st @ [a]\<rparr>)"
    using assms(1) heappop_set(2)[OF relax(1,2)] by (auto simp: e_queued_has_prev_def)
  then have "e_queued_has_prev start (fold (earliest_relax start a t) (graph_get g a)
                     (st\<lparr>e_pq := rest, e_visited := e_visited st @ [a]\<rparr>))"
    by (rule fold_earliest_relax_invariant) (rule e_queued_has_prev_relax)
  with relax(5) assms(2) show ?thesis by simp
qed

lemma c_queued_has_prev_relax:
  "c_queued_has_prev start s \<Longrightarrow> cheapest_relax start cabin a cost t f s = Inr s' \<Longrightarrow>
   c_queued_has_prev start s'"
  by (erule cheapest_relax_cases) (auto simp: c_queued_has_prev_def)

lemma c_queued_has_prev_step:
  assumes "c_queued_has_prev start st" "cheapest_iter g start dst cabin st = Continue st'"
  shows "c_queued_has_prev start st'"
proof (cases rule: cheapest_iter_cases[of st g start dst cabin])
  case exhausted
  with assms show ?thesis by simp
next
  case (skip cost t a rest)
  from assms(2) skip(4) have st': "st' = st\<lparr>c_pq := rest\<rparr>" by simp
  show ?thesis unfolding st'
    using assms(1) heappop_set(2)[OF skip(1,2)] by (auto simp: c_queued_has_prev_def)
next
  case (found cost t rest)
  with assms show ?thesis by simp
next
  case (raise cost t a rest e)
  with assms show ?thesis by simp
next
  case (relax cost t a rest st2)
  have "c_queued_has_prev start (st\<lparr>c_pq := rest, c_visited := c_visited st @ [(a, cost)]\<rparr>)"
    using assms(1) heappop_set(2)[OF relax(1,2)] by (auto simp: c_queued_has_prev_def)
  with relax(5) have "c_queued_has_prev start st2"
    by (rule cheapest_relax_all_invariant) (rule c_queued_has_prev_relax)
  with relax(6) assms(2) show ?thesis by simp
qed

lemma earliest_found_has_prev:
  assumes "earliest_loop g start dst (earliest_init start ed) = Found st" "start \<noteq> dst"
  shows "e_prev st dst \<noteq> None"
proof -
  obtain n where n: "passes (earliest_iter g start dst) n (earliest_init start ed) = Found st"
    using earliest_loop_passes[of g start dst "earliest_init start ed"] assms(1) by auto
  have "e_queued_has_prev start (earliest_init start ed)"
    by (simp add: e_queued_has_prev_def earliest_init_def)
  moreover have "\<And>s s'. e_queued_has_prev start s \<Longrightarrow> earliest_iter g start dst s = Continue s'
      \<Longrightarrow> e_queued_has_prev start s'"
    by (rule e_queued_has_prev_step)
  ultimately have "case Found st of Continue s' \<Rightarrow> e_queued_has_prev start s'
      | _ \<Rightarrow> \<exists>s. e_queued_has_prev start s \<and> earliest_iter g start dst s = Found st"
    by (rule passes_invariant[OF n])
  then obtain s where s: "e_queued_has_prev start s" "earliest_iter g start dst s = Found st"
    by auto
  show ?thesis
  proof (cases rule: earliest_iter_cases[of s g start dst])
    case exhausted
    with s show ?thesis by simp
  next
    case (skip t a rest)
    with s show ?thesis by simp
  next
    case (found t rest)
    with s(1) heappop_set(1)[OF found(1,2)] assms(2) have "e_prev s dst \<noteq> None"
      by (auto simp: e_queued_has_prev_def)
    with found(4) s(2) show ?thesis by auto
  next
    case (relax t a rest)
    with s show ?thesis by simp
  qed
qed

lemma cheapest_found_has_prev:
  assumes "cheapest_loop g start dst cabin (cheapest_init start ed) = Some (Found st)" "start \<noteq> dst"
  shows "c_prev st dst \<noteq> None"
proof -
  obtain n where n: "passes (cheapest_iter g start dst cabin) n (cheapest_init start ed) = Found st"
    using cheapest_loop_passes[OF assms(1)] by auto
  have "c_queued_has_prev start (cheapest_init start ed)"
    by (simp add: c_queued_has_prev_def cheapest_init_def)
  moreover have "\<And>s s'. c_queued_has_prev start s \<Longrightarrow> cheapest_iter g start dst cabin s = Continue s'
      \<Longrightarrow> c_queued_has_prev start s'"
    by (rule c_queued_has_prev_step)
  ultimately have "case Found st of Continue s' \<Rightarrow> c_queued_has_prev start s'
      | _ \<Rightarrow> \<exists>s. c_queued_has_prev start s \<and> cheapest_iter g start dst cabin s = Found st"
    by (rule passes_invariant[OF n])
  then obtain s where s: "c_queued_has_prev start s" "cheapest_iter g start dst cabin s = Found st"
    by auto
  show ?thesis
  proof (cases rule: cheapest_iter_cases[of s g start dst cabin])
    case exhausted
    with s show ?thesis by simp
  next
    case (skip cost t a rest)
    with s show ?thesis by simp
  next
    case (found cost t rest)
    with s(1) heappop_set(1)[OF found(1,2)] assms(2) have "c_prev s dst \<noteq> None"
      by (auto simp: c_queued_has_prev_def)
    with found(4) s(2) show ?thesis by auto
  next
    case (raise cost t a rest e)
    with s show ?thesis by simp
  next
    case (relax cost t a rest st2)
    with s show ?thesis by simp
  qed
qed

lemma heappop_single [simp]: "heappop [x] = (x, [])"
  by (simp add: heappop_def)

lemma find_earliest_same_airport:
  "find_earliest_itinerary g start start ed = Some (Some (Itinerary []))"
proof -
  have "earliest_iter g start start (earliest_init start ed) =
      Found \<lparr>e_dist = [start \<mapsto> ed], e_prev = Map.empty, e_pq = [], e_visited = [start]\<rparr>"
    by (simp add: earliest_iter_def earliest_init_def)
  then have "earliest_loop g start start (earliest_init start ed) =
      Found \<lparr>e_dist = [start \<mapsto> ed], e_prev = Map.empty, e_pq = [], e_visited = [start]\<rparr>"
    by (subst earliest_loop.simps) simp
  then show ?thesis
    by (simp add: find_earliest_itinerary_def reconstruct_itinerary_empty_map)
qed

lemma find_cheapest_same_airport:
  "find_cheapest_itinerary g start start ed cabin = Some (Inr (Some (Itinerary [])))"
proof -
  have "cheapest_iter g start start cabin (cheapest_init start ed) =
      Found \<lparr>c_dist = [start \<mapsto> 0], c_prev = Map.empty, c_pq = [], c_visited = [(start, 0)]\<rparr>"
    by (simp add: cheapest_iter_def cheapest_init_def)
  then have "cheapest_loop g start start cabin (cheapest_init start ed) =
      Some (Found \<lparr>c_dist = [start \<mapsto> 0], c_prev = Map.empty, c_pq = [], c_visited = [(start, 0)]\<rparr>)"
    by (subst cheapest_loop.simps) simp
  then show ?thesis
    by (simp add: find_cheapest_itinerary_def reconstruct_itinerary_empty_map)
qed

text \<open>
  C4, as the code has it: when the start differs from the destination, an itinerary that a
  search returns has at least one flight; when they are the same airport both searches
  return a present itinerary with no flight.
\<close>

theorem returned_itinerary_nonempty_unless_same_airport:
  "(start \<noteq> dst \<and> find_earliest_itinerary g start dst ed = Some (Some it) \<longrightarrow> flights it \<noteq> []) \<and>
   (start \<noteq> dst \<and> find_cheapest_itinerary g start dst ed cabin = Some (Inr (Some it')) \<longrightarrow>
      flights it' \<noteq> []) \<and>
   find_earliest_itinerary g start start ed = Some (Some (Itinerary [])) \<and>
   find_cheapest_itinerary g start start ed cabin = Some (Inr (Some (Itinerary [])))"
proof -
  have 1: "flights it \<noteq> []"
    if ne: "start \<noteq> dst" and r: "find_earliest_itinerary g start dst ed = Some (Some it)"
  proof -
    from earliest_loop_ends[of g start dst "earliest_init start ed"] r
    obtain st where st: "earliest_loop g start dst (earliest_init start ed) = Found st"
      by (auto simp: find_earliest_itinerary_def)
    with r have "reconstruct_itinerary (e_prev st) dst = Some it"
      by (auto simp: find_earliest_itinerary_def)
    then show ?thesis
      using earliest_found_has_prev[OF st ne] by (rule reconstruct_itinerary_nonempty)
  qed
  have 2: "flights it' \<noteq> []"
    if ne: "start \<noteq> dst" and r: "find_cheapest_itinerary g start dst ed cabin = Some (Inr (Some it'))"
  proof -
    from r obtain st where st: "cheapest_loop g start dst cabin (cheapest_init start ed) = Some (Found st)"
      by (auto simp: find_cheapest_itinerary_def split: option.splits ctl.splits)
    with r have "reconstruct_itinerary (c_prev st) dst = Some it'"
      by (auto simp: find_cheapest_itinerary_def)
    then show ?thesis
      using cheapest_found_has_prev[OF st ne] by (rule reconstruct_itinerary_nonempty)
  qed
  from 1 2 find_earliest_same_airport find_cheapest_same_airport show ?thesis by blast
qed

theorem returned_itinerary_nonempty_unless_same_airport_witness:
  "''A'' \<noteq> ''C'' \<and>
   find_earliest_itinerary (build_graph [ex_AB, ex_BC, ex_AC]) ''A'' ''C'' 420
     = Some (Some (Itinerary [ex_AB, ex_BC])) \<and>
   find_cheapest_itinerary (build_graph [ex_AB, ex_BC, ex_AC]) ''A'' ''C'' 420 ''economy''
     = Some (Inr (Some (Itinerary [ex_AB, ex_BC]))) \<and>
   flights (Itinerary [ex_AB, ex_BC]) \<noteq> []"
proof -
  have ne: "''A'' \<noteq> ''C''" by simp
  have e: "find_earliest_itinerary (build_graph [ex_AB, ex_BC, ex_AC]) ''A'' ''C'' 420
     = Some (Some (Itinerary [ex_AB, ex_BC]))" by code_simp
  have c: "find_cheapest_itinerary (build_graph [ex_AB, ex_BC, ex_AC]) ''A'' ''C'' 420 ''economy''
     = Some (Inr (Some (Itinerary [ex_AB, ex_BC])))" by code_simp
  from returned_itinerary_nonempty_unless_same_airport
    [of "''A''" "''C''" "build_graph [ex_AB, ex_BC, ex_AC]" 420 "Itinerary [ex_AB, ex_BC]"
        "''economy''" "Itinerary [ex_AB, ex_BC]"] ne e c
  have "flights (Itinerary [ex_AB, ex_BC]) \<noteq> []" by blast
  with ne e c show ?thesis by blast
qed

text \<open>
  C4 as stated fails when the start is the destination: each search returns
  \<open>Itinerary([])\<close>, a present itinerary whose flight sequence is empty.
\<close>

theorem same_airport_returns_empty_itinerary:
  "find_earliest_itinerary (build_graph [ex_AB, ex_BA]) ''A'' ''A'' 420 = Some (Some (Itinerary [])) \<and>
   find_cheapest_itinerary (build_graph [ex_AB, ex_BA]) ''A'' ''A'' 420 ''economy''
     = Some (Inr (Some (Itinerary []))) \<and>
   flights (Itinerary []) = []"
  by (simp add: find_earliest_same_airport find_cheapest_same_airport)

section \<open>Finalisation happens once per key of the visited set\<close>




lemma fold_earliest_relax_dist_visited:
  "e_visited (fold (earliest_relax start a t) fs st) = e_visited st"
  by simp

lemma earliest_iter_visited:
  assumes "distinct (e_visited st)"
  shows "case earliest_iter g start dst st of
           Continue st' \<Rightarrow> distinct (e_visited st') \<and> dst \<notin> set (e_visited st') - set (e_visited st)
         | Found st' \<Rightarrow> distinct (e_visited st') \<and> last (e_visited st') = dst
         | Exhausted st' \<Rightarrow> distinct (e_visited st') \<and> e_pq st' = []
         | Raise e \<Rightarrow> False"
  using assms by (cases rule: earliest_iter_cases[of st g start dst]) auto



section \<open>Flights of a graph\<close>

definition all_flights :: "graph \<Rightarrow> flight list" where
  "all_flights g = concat (map snd g)"

lemma graph_get_Cons:
  "graph_get ((k, fs) # g) a = (if a = k then fs else graph_get g a)"
  by (simp add: graph_get_def)

lemma sum_graph_get_le:
  "distinct as \<Longrightarrow> sum_list (map (\<lambda>a. length (graph_get g a)) as) \<le> length (all_flights g)"
proof (induction g arbitrary: as)
  case Nil
  then show ?case by (simp add: graph_get_def)
next
  case (Cons p g)
  obtain k fs where p: "p = (k, fs)" by (cases p)
  show ?case
  proof (cases "k \<in> set as")
    case True
    have "sum_list (map (\<lambda>a. length (graph_get (p # g) a)) as) =
        length (graph_get (p # g) k) + sum_list (map (\<lambda>a. length (graph_get (p # g) a)) (remove1 k as))"
      using True by (rule sum_list_map_remove1)
    also have "map (\<lambda>a. length (graph_get (p # g) a)) (remove1 k as) =
        map (\<lambda>a. length (graph_get g a)) (remove1 k as)"
      using Cons.prems by (intro map_cong) (auto simp: p graph_get_Cons)
    also have "sum_list (map (\<lambda>a. length (graph_get g a)) (remove1 k as)) \<le> length (all_flights g)"
      using Cons.prems by (intro Cons.IH) simp
    finally show ?thesis by (simp add: p graph_get_Cons all_flights_def)
  next
    case False
    then have "sum_list (map (\<lambda>a. length (graph_get (p # g) a)) as) =
        sum_list (map (\<lambda>a. length (graph_get g a)) as)"
      by (intro arg_cong[where f = sum_list] map_cong) (auto simp: p graph_get_Cons)
    also have "\<dots> \<le> length (all_flights g)" by (rule Cons.IH[OF Cons.prems])
    also have "\<dots> \<le> length (all_flights (p # g))" by (simp add: all_flights_def)
    finally show ?thesis .
  qed
qed

lemma earliest_passes_visited:
  assumes "passes (earliest_iter g start dst) n st0 = r" "distinct (e_visited st0)"
  shows "case r of
           Continue st \<Rightarrow> distinct (e_visited st)
         | Found st \<Rightarrow> distinct (e_visited st) \<and> last (e_visited st) = dst
         | Exhausted st \<Rightarrow> distinct (e_visited st) \<and> e_pq st = []
         | Raise e \<Rightarrow> False"
proof -
  have step: "distinct (e_visited s')"
    if "distinct (e_visited s)" "earliest_iter g start dst s = Continue s'" for s s'
    using earliest_iter_visited[OF that(1), where g = g and start = start and dst = dst] that(2)
    by simp
  have *: "case r of Continue s' \<Rightarrow> distinct (e_visited s')
      | _ \<Rightarrow> \<exists>s. distinct (e_visited s) \<and> earliest_iter g start dst s = r"
    by (rule passes_invariant[OF assms(1), where I = "\<lambda>s. distinct (e_visited s)", OF assms(2) step])
  show ?thesis
  proof (cases r)
    case (Continue s')
    with * show ?thesis by simp
  next
    case (Found s')
    with * obtain s where "distinct (e_visited s)" "earliest_iter g start dst s = Found s'" by auto
    with earliest_iter_visited[OF this(1), where g = g and start = start and dst = dst] Found
    show ?thesis by simp
  next
    case (Exhausted s')
    with * obtain s where "distinct (e_visited s)" "earliest_iter g start dst s = Exhausted s'" by auto
    with earliest_iter_visited[OF this(1), where g = g and start = start and dst = dst] Exhausted
    show ?thesis by simp
  next
    case (Raise e)
    with * obtain s where "distinct (e_visited s)" "earliest_iter g start dst s = Raise e" by auto
    with earliest_iter_not_Raise show ?thesis by blast
  qed
qed

section \<open>The loop of the cheapest-fare search ends when flights arrive after they depart\<close>

definition valid_times :: "graph \<Rightarrow> bool" where
  "valid_times g \<longleftrightarrow> (\<forall>f \<in> set (all_flights g). depart f < arrive f)"

text \<open>
  The measure: an entry of the queue weighs \<open>(N + 1) ^ r\<close>, where \<open>N\<close> is the number of
  flights and \<open>r\<close> the number of flights that arrive after the time of the entry. A
  pass takes one entry out and adds at most \<open>N\<close> entries of a later time.
\<close>

definition rank :: "graph \<Rightarrow> int \<Rightarrow> nat" where
  "rank g t = length (filter (\<lambda>f. t < arrive f) (all_flights g))"

definition weight :: "graph \<Rightarrow> int \<times> int \<times> string \<Rightarrow> nat" where
  "weight g e = Suc (length (all_flights g)) ^ rank g (fst (snd e))"

definition potential :: "graph \<Rightarrow> (int \<times> int \<times> string) list \<Rightarrow> nat" where
  "potential g pq = sum_list (map (weight g) pq)"

lemma graph_get_all_flights: "set (graph_get g a) \<subseteq> set (all_flights g)"
proof (cases "map_of g a")
  case None
  then show ?thesis by (simp add: graph_get_def)
next
  case (Some fs)
  then have "(a, fs) \<in> set g" by (rule map_of_SomeD)
  then show ?thesis using Some by (force simp: graph_get_def all_flights_def)
qed

lemma length_graph_get_le: "length (graph_get g a) \<le> length (all_flights g)"
  using sum_graph_get_le[of "[a]" g] by simp

lemma rank_less:
  assumes "f \<in> set (all_flights g)" "t < arrive f"
  shows "rank g (arrive f) < rank g t"
proof -
  have "filter (\<lambda>h. arrive f < arrive h) (all_flights g) =
      filter (\<lambda>h. arrive f < arrive h) (filter (\<lambda>h. t < arrive h) (all_flights g))"
    using assms(2) by (auto intro!: filter_cong)
  moreover have "length (filter (\<lambda>h. arrive f < arrive h) (filter (\<lambda>h. t < arrive h) (all_flights g)))
      < length (filter (\<lambda>h. t < arrive h) (all_flights g))"
    by (rule length_filter_less[of f]) (use assms in auto)
  ultimately show ?thesis by (simp add: rank_def)
qed

lemma weight_pos: "0 < weight g e"
  by (simp add: weight_def)

lemma potential_remove1:
  "m \<in> set pq \<Longrightarrow> potential g pq = weight g m + potential g (remove1 m pq)"
  unfolding potential_def by (rule sum_list_map_remove1)

lemma cheapest_relax_potential:
  assumes "valid_times g" "f \<in> set (all_flights g)"
    and "cheapest_relax start cabin a cost t f s = Inr s'"
  shows "Suc (length (all_flights g)) * potential g (c_pq s')
       \<le> Suc (length (all_flights g)) * potential g (c_pq s) + Suc (length (all_flights g)) ^ rank g t"
  using assms(3)
proof (cases rule: cheapest_relax_cases)
  case same
  then show ?thesis by simp
next
  case (update p)
  from assms(1,2) have "depart f < arrive f" by (auto simp: valid_times_def)
  with update(2) have "t < arrive f"
    by (auto simp: MIN_LAYOVER_MINUTES_def split: if_splits)
  from rank_less[OF assms(2) this] have "Suc (rank g (arrive f)) \<le> rank g t" by simp
  then have "Suc (length (all_flights g)) ^ Suc (rank g (arrive f))
      \<le> Suc (length (all_flights g)) ^ rank g t"
    by (intro power_increasing) auto
  then show ?thesis
    by (simp add: update(4) potential_def weight_def algebra_simps)
qed

lemma cheapest_relax_all_potential:
  assumes "valid_times g" "set fs \<subseteq> set (all_flights g)"
    and "cheapest_relax_all start cabin a cost t fs s = Inr s'"
  shows "Suc (length (all_flights g)) * potential g (c_pq s')
       \<le> Suc (length (all_flights g)) * potential g (c_pq s)
         + length fs * Suc (length (all_flights g)) ^ rank g t"
  using assms(2,3)
proof (induction fs arbitrary: s)
  case Nil
  then show ?case by simp
next
  case (Cons f fs)
  from Cons.prems(2) obtain s1 where
    s1: "cheapest_relax start cabin a cost t f s = Inr s1"
    and rest: "cheapest_relax_all start cabin a cost t fs s1 = Inr s'"
    by (auto split: sum.splits)
  from Cons.prems(1) have f: "f \<in> set (all_flights g)" and fs: "set fs \<subseteq> set (all_flights g)"
    by auto
  from cheapest_relax_potential[OF assms(1) f s1] Cons.IH[OF fs rest]
  show ?case by (simp add: algebra_simps)
qed

lemma cheapest_iter_potential:
  assumes "valid_times g" "cheapest_iter g start dst cabin st = Continue st'"
  shows "potential g (c_pq st') < potential g (c_pq st)"
proof (cases rule: cheapest_iter_cases[of st g start dst cabin])
  case exhausted
  with assms show ?thesis by simp
next
  case (skip cost t a rest)
  from heappop_least[OF skip(1,2)] have "(cost, t, a) \<in> set (c_pq st)"
    and rest: "rest = remove1 (cost, t, a) (c_pq st)" by auto
  from potential_remove1[OF this(1), of g] weight_pos[of g "(cost, t, a)"]
  have "potential g rest < potential g (c_pq st)" by (simp add: rest)
  with skip(4) assms(2) show ?thesis by auto
next
  case (found cost t rest)
  with assms show ?thesis by simp
next
  case (raise cost t a rest e)
  with assms show ?thesis by simp
next
  case (relax cost t a rest st2)
  let ?N = "length (all_flights g)"
  let ?W = "Suc ?N ^ rank g t"
  from heappop_least[OF relax(1,2)] have "(cost, t, a) \<in> set (c_pq st)"
    and rest: "rest = remove1 (cost, t, a) (c_pq st)" by auto
  from potential_remove1[OF this(1), of g]
  have pq: "potential g (c_pq st) = ?W + potential g rest" by (simp add: rest weight_def)
  from cheapest_relax_all_potential[OF assms(1) graph_get_all_flights relax(5)]
  have "Suc ?N * potential g (c_pq st2) \<le> Suc ?N * potential g rest + length (graph_get g a) * ?W"
    by simp
  also have "length (graph_get g a) * ?W \<le> ?N * ?W"
    using length_graph_get_le[of g a] by simp
  also have "Suc ?N * potential g rest + ?N * ?W < Suc ?N * potential g rest + Suc ?N * ?W"
    by simp
  also have "\<dots> = Suc ?N * potential g (c_pq st)" by (simp add: pq algebra_simps)
  finally have "potential g (c_pq st2) < potential g (c_pq st)"
    by (simp only: Suc_mult_less_cancel1)
  with relax(6) assms(2) show ?thesis by auto
qed

lemma cheapest_loop_terminates:
  assumes "valid_times g"
  shows "\<exists>r. cheapest_loop g start dst cabin st = Some r"
proof (induction "potential g (c_pq st)" arbitrary: st rule: less_induct)
  case less
  show ?case
  proof (cases "cheapest_iter g start dst cabin st")
    case (Continue st')
    from less[OF cheapest_iter_potential[OF assms Continue]]
    obtain r where "cheapest_loop g start dst cabin st' = Some r" by blast
    with Continue have "cheapest_loop g start dst cabin st = Some r"
      by (subst cheapest_loop.simps) simp
    then show ?thesis by blast
  next
    case (Found st')
    then have "cheapest_loop g start dst cabin st = Some (Found st')"
      by (subst cheapest_loop.simps) simp
    then show ?thesis by blast
  next
    case (Exhausted st')
    then have "cheapest_loop g start dst cabin st = Some (Exhausted st')"
      by (subst cheapest_loop.simps) simp
    then show ?thesis by blast
  next
    case (Raise e)
    then have "cheapest_loop g start dst cabin st = Some (Raise e)"
      by (subst cheapest_loop.simps) simp
    then show ?thesis by blast
  qed
qed

section \<open>The cheapest-fare search raises only for an unknown cabin tag\<close>

lemma price_for_valid_cabin:
  "valid_cabin cabin \<Longrightarrow> price_for f cabin = Inr (fare cabin f)"
  by (auto simp: valid_cabin_def price_for_def fare_def)







section \<open>Feasible itineraries over flights that arrive after they depart\<close>

definition valid_flights :: "flight list \<Rightarrow> bool" where
  "valid_flights fls \<longleftrightarrow> (\<forall>f \<in> set fls. depart f < arrive f)"

lemma graph_get_build_graph:
  "graph_get (build_graph fls) a = filter (\<lambda>f. origin f = a) fls"
  by (simp add: build_graph_def graph_get_fold) (simp add: graph_get_def)

lemma connected_snoc:
  "connected (q @ [f]) \<longleftrightarrow>
     connected q \<and> (q \<noteq> [] \<longrightarrow> dest (last q) = origin f \<and> arrive (last q) + MIN_LAYOVER_MINUTES \<le> depart f)"
proof (induction q rule: connected.induct)
  case 1
  then show ?case by simp
next
  case (2 h)
  then show ?case by simp
next
  case (3 h k fs)
  then show ?case by auto
qed

lemma connected_departs_before_arrival:
  assumes "connected p" "p \<noteq> []" "\<forall>f \<in> set p. depart f < arrive f"
  shows "depart (hd p) < arrive (last p)"
  using assms
proof (induction p rule: connected.induct)
  case 1
  then show ?case by simp
next
  case (2 f)
  then show ?case by simp
next
  case (3 f h fs)
  then have "depart h < arrive (last (h # fs))" by simp
  moreover from 3(2) have "arrive f + MIN_LAYOVER_MINUTES \<le> depart h" by simp
  moreover from 3(4) have "depart f < arrive f" by simp
  ultimately show ?case by (simp add: MIN_LAYOVER_MINUTES_def)
qed

lemma feasible_single:
  "feasible fls start b ed [f] \<longleftrightarrow> f \<in> set fls \<and> origin f = start \<and> dest f = b \<and> ed \<le> depart f"
  by (auto simp: feasible_def)

lemma feasible_snoc:
  assumes "q \<noteq> []"
  shows "feasible fls start b ed (q @ [f]) \<longleftrightarrow>
     feasible fls start (origin f) ed q \<and> f \<in> set fls \<and> dest f = b \<and>
     arrive (last q) + MIN_LAYOVER_MINUTES \<le> depart f"
  using assms by (auto simp: feasible_def connected_snoc)

lemma feasible_arrival:
  assumes "feasible fls start b ed p" "valid_flights fls"
  shows "ed < arrive (last p)"
proof -
  from assms have "\<forall>f \<in> set p. depart f < arrive f"
    by (auto simp: feasible_def valid_flights_def)
  with assms(1) connected_departs_before_arrival[of p] show ?thesis
    by (auto simp: feasible_def)
qed

section \<open>Invariant of the earliest-arrival search\<close>

text \<open>The departure threshold of the search at an airport whose label is \<open>d\<close>.\<close>

definition required :: "string \<Rightarrow> string \<Rightarrow> int \<Rightarrow> int" where
  "required start a d = (if a = start then d else d + MIN_LAYOVER_MINUTES)"

lemma required_bounds: "d \<le> required start a d" "required start a d \<le> d + MIN_LAYOVER_MINUTES"
  by (auto simp: required_def MIN_LAYOVER_MINUTES_def)

text \<open>Every entry of the queue is for a labelled airport and is not below its label.\<close>

definition e_queue_ok :: "estate \<Rightarrow> bool" where
  "e_queue_ok st \<longleftrightarrow> (\<forall>t a. (t, a) \<in> set (e_pq st) \<longrightarrow> (\<exists>d. e_dist st a = Some d \<and> d \<le> t))"

text \<open>The label of an airport that is not finalised is in the queue.\<close>

definition e_label_queued :: "estate \<Rightarrow> bool" where
  "e_label_queued st \<longleftrightarrow>
     (\<forall>a d. e_dist st a = Some d \<longrightarrow> a \<in> set (e_visited st) \<or> (d, a) \<in> set (e_pq st))"

text \<open>The start keeps its label and has no predecessor; no label is below the start's.\<close>

definition e_start_ok :: "string \<Rightarrow> int \<Rightarrow> estate \<Rightarrow> bool" where
  "e_start_ok start ed st \<longleftrightarrow>
     e_dist st start = Some ed \<and> e_prev st start = None \<and>
     (\<forall>a d. e_dist st a = Some d \<longrightarrow> ed \<le> d) \<and>
     (start \<in> set (e_visited st) \<or> dom (e_dist st) = {start})"

text \<open>
  The predecessor of an airport is a scheduled flight into it that gave it its label,
  taken from a finalised airport at or after that airport's threshold; every labelled
  airport but the start has one.
\<close>

definition e_prev_ok :: "flight list \<Rightarrow> string \<Rightarrow> estate \<Rightarrow> bool" where
  "e_prev_ok fls start st \<longleftrightarrow>
     (\<forall>a f. e_prev st a = Some f \<longrightarrow>
        dest f = a \<and> f \<in> set fls \<and> e_dist st a = Some (arrive f) \<and>
        origin f \<in> set (e_visited st) \<and>
        (\<exists>du. e_dist st (origin f) = Some du \<and> required start (origin f) du \<le> depart f)) \<and>
     (\<forall>a d. e_dist st a = Some d \<longrightarrow> a = start \<or> e_prev st a \<noteq> None)"

text \<open>A finalised airport has a label, and no entry of the queue is below it.\<close>

definition e_final_ok :: "estate \<Rightarrow> bool" where
  "e_final_ok st \<longleftrightarrow>
     (\<forall>a \<in> set (e_visited st). \<exists>d. e_dist st a = Some d \<and> (\<forall>t b. (t, b) \<in> set (e_pq st) \<longrightarrow> d \<le> t))"

text \<open>
  Every flight out of a finalised airport that departs at or after the airport's
  threshold has been relaxed, but for the flights \<open>P\<close> still to come in the current pass.
\<close>

definition e_relaxed :: "flight list \<Rightarrow> string \<Rightarrow> flight set \<Rightarrow> estate \<Rightarrow> bool" where
  "e_relaxed fls start P st \<longleftrightarrow>
     (\<forall>f d. origin f \<in> set (e_visited st) \<and> f \<in> set fls \<and> f \<notin> P \<and>
        e_dist st (origin f) = Some d \<and> required start (origin f) d \<le> depart f \<longrightarrow>
        (\<exists>d'. e_dist st (dest f) = Some d' \<and> d' \<le> arrive f))"

text \<open>No feasible itinerary arrives at a finalised airport before its label.\<close>

definition e_optimal :: "flight list \<Rightarrow> string \<Rightarrow> int \<Rightarrow> estate \<Rightarrow> bool" where
  "e_optimal fls start ed st \<longleftrightarrow>
     (\<forall>a p d. a \<in> set (e_visited st) \<and> feasible fls start a ed p \<and> e_dist st a = Some d
        \<longrightarrow> d \<le> arrive (last p))"

definition e_inv :: "flight list \<Rightarrow> string \<Rightarrow> int \<Rightarrow> flight set \<Rightarrow> estate \<Rightarrow> bool" where
  "e_inv fls start ed P st \<longleftrightarrow>
     e_queue_ok st \<and> e_label_queued st \<and> e_start_ok start ed st \<and> e_prev_ok fls start st \<and>
     e_final_ok st \<and> e_relaxed fls start P st \<and> e_optimal fls start ed st"

lemma e_inv_init: "e_inv fls start ed {} (earliest_init start ed)"
  by (auto simp: e_inv_def earliest_init_def e_queue_ok_def e_label_queued_def e_start_ok_def
      e_prev_ok_def e_final_ok_def e_relaxed_def e_optimal_def split: if_splits)

text \<open>
  A feasible itinerary from the finalised start ends at a finalised airport, or takes a
  flight out of the finalised airports that the search has seen as eligible.
\<close>

lemma feasible_leaves_finalised:
  assumes inv: "e_start_ok start ed st" "e_final_ok st" "e_optimal fls start ed st"
    and sv: "start \<in> set (e_visited st)" and vf: "valid_flights fls"
    and p: "feasible fls start b ed p"
  shows "b \<in> set (e_visited st) \<or>
     (\<exists>f \<in> set p. f \<in> set fls \<and> origin f \<in> set (e_visited st) \<and> dest f \<notin> set (e_visited st) \<and>
        (\<exists>d. e_dist st (origin f) = Some d \<and> required start (origin f) d \<le> depart f) \<and>
        arrive f \<le> arrive (last p))"
  using p
proof (induction p arbitrary: b rule: rev_induct)
  case Nil
  then show ?case by (simp add: feasible_def)
next
  case (snoc f q)
  have eo: "(\<exists>d. e_dist st (origin f) = Some d \<and> required start (origin f) d \<le> depart f)
          \<and> origin f \<in> set (e_visited st)"
    if "\<not> (\<exists>h \<in> set q. h \<in> set fls \<and> origin h \<in> set (e_visited st) \<and> dest h \<notin> set (e_visited st) \<and>
        (\<exists>d. e_dist st (origin h) = Some d \<and> required start (origin h) d \<le> depart h) \<and>
        arrive h \<le> arrive (last q))"
  proof (cases "q = []")
    case True
    with snoc.prems have "origin f = start" "ed \<le> depart f" by (auto simp: feasible_single)
    with inv(1) sv show ?thesis
      by (auto simp: e_start_ok_def required_def)
  next
    case False
    from snoc.prems False have q: "feasible fls start (origin f) ed q"
      and lay: "arrive (last q) + MIN_LAYOVER_MINUTES \<le> depart f"
      by (auto simp: feasible_snoc)
    from snoc.IH[OF q] that have ov: "origin f \<in> set (e_visited st)" by blast
    with inv(2) obtain d where d: "e_dist st (origin f) = Some d" by (auto simp: e_final_ok_def)
    with inv(3) ov q have "d \<le> arrive (last q)" by (auto simp: e_optimal_def)
    with lay required_bounds(2)[of start "origin f" d] have "required start (origin f) d \<le> depart f"
      by simp
    with d ov show ?thesis by blast
  qed
  show ?case
  proof (cases "\<exists>h \<in> set q. h \<in> set fls \<and> origin h \<in> set (e_visited st) \<and> dest h \<notin> set (e_visited st) \<and>
        (\<exists>d. e_dist st (origin h) = Some d \<and> required start (origin h) d \<le> depart h) \<and>
        arrive h \<le> arrive (last q)")
    case True
    then obtain h where h: "h \<in> set q" "h \<in> set fls" "origin h \<in> set (e_visited st)"
      "dest h \<notin> set (e_visited st)"
      "\<exists>d. e_dist st (origin h) = Some d \<and> required start (origin h) d \<le> depart h"
      "arrive h \<le> arrive (last q)" by blast
    from h(1) have qne: "q \<noteq> []" by auto
    with snoc.prems have "arrive (last q) + MIN_LAYOVER_MINUTES \<le> depart f" "f \<in> set fls"
      by (auto simp: feasible_snoc)
    with vf have "arrive (last q) \<le> arrive f"
      by (auto simp: valid_flights_def MIN_LAYOVER_MINUTES_def)
    with h show ?thesis by auto
  next
    case False
    note e = eo[OF False]
    from snoc.prems have fb: "dest f = b" "f \<in> set fls" by (auto simp: feasible_def)
    show ?thesis
    proof (cases "b \<in> set (e_visited st)")
      case True
      then show ?thesis by simp
    next
      case nb: False
      with e fb show ?thesis by auto
    qed
  qed
qed


lemma in_set_remove1_other: "x \<in> set xs \<Longrightarrow> x \<noteq> m \<Longrightarrow> x \<in> set (remove1 m xs)"
  by simp

text \<open>Popping an airport that is not finalised: its label is final.\<close>

lemma earliest_pop:
  assumes inv: "e_inv fls start ed {} st" and vf: "valid_flights fls"
    and ne: "e_pq st \<noteq> []" and pop: "heappop (e_pq st) = ((T, u), rest)"
    and nv: "u \<notin> set (e_visited st)"
    and st1: "st1 = st\<lparr>e_pq := rest, e_visited := e_visited st @ [u]\<rparr>"
  shows "e_inv fls start ed {f \<in> set fls. origin f = u} st1"
    and "e_dist st1 u = Some T"
    and "\<forall>a \<in> set (e_visited st1). \<exists>d. e_dist st1 a = Some d \<and> d \<le> T"
    and "start \<in> set (e_visited st1)"
proof -
  note hp = heappop_least[OF ne pop]
  from inv have q: "e_queue_ok st" and l: "e_label_queued st" and s: "e_start_ok start ed st"
    and pr: "e_prev_ok fls start st" and fin: "e_final_ok st" and rel: "e_relaxed fls start {} st"
    and opt: "e_optimal fls start ed st"
    by (simp_all add: e_inv_def)
  have least: "T \<le> t" if "(t, b) \<in> set (e_pq st)" for t b
    using hp(2) that by fastforce
  from q hp(1) obtain d where d: "e_dist st u = Some d" "d \<le> T"
    by (auto simp: e_queue_ok_def)
  with l nv have "(d, u) \<in> set (e_pq st)" by (auto simp: e_label_queued_def)
  from least[OF this] d have du: "e_dist st u = Some T" by simp
  have rest_sub: "x \<in> set (e_pq st)" if "x \<in> set rest" for x
    using that hp(3) set_remove1_subset[of "(T, u)" "e_pq st"] by auto
  have sv: "start \<in> set (e_visited st1)"
  proof (cases "start \<in> set (e_visited st)")
    case True
    then show ?thesis by (simp add: st1)
  next
    case False
    with s have "dom (e_dist st) = {start}" by (simp add: e_start_ok_def)
    with du have "u = start" by auto
    then show ?thesis by (simp add: st1)
  qed
  have fin_le: "\<forall>a \<in> set (e_visited st1). \<exists>d. e_dist st1 a = Some d \<and> d \<le> T"
    using fin hp(1) du by (auto simp: st1 e_final_ok_def)
  have 1: "e_queue_ok st1"
    using q rest_sub by (auto simp: e_queue_ok_def st1)
  have 2: "e_label_queued st1"
    unfolding e_label_queued_def
  proof (intro allI impI)
    fix a d assume "e_dist st1 a = Some d"
    then have ad: "e_dist st a = Some d" by (simp add: st1)
    show "a \<in> set (e_visited st1) \<or> (d, a) \<in> set (e_pq st1)"
    proof (cases "a = u \<or> a \<in> set (e_visited st)")
      case True
      then show ?thesis by (auto simp: st1)
    next
      case False
      with l ad have "(d, a) \<in> set (e_pq st)" by (auto simp: e_label_queued_def)
      with False have "(d, a) \<in> set (remove1 (T, u) (e_pq st))"
        by (intro in_set_remove1_other) auto
      then show ?thesis by (simp add: st1 hp(3))
    qed
  qed
  have 3: "e_start_ok start ed st1"
    using s sv by (auto simp: e_start_ok_def st1)
  have 4: "e_prev_ok fls start st1"
    using pr by (auto simp: e_prev_ok_def st1)
  have 5: "e_final_ok st1"
    unfolding e_final_ok_def
  proof
    fix a assume "a \<in> set (e_visited st1)"
    then consider "a = u" | "a \<in> set (e_visited st)" by (auto simp: st1)
    then show "\<exists>d. e_dist st1 a = Some d \<and> (\<forall>t b. (t, b) \<in> set (e_pq st1) \<longrightarrow> d \<le> t)"
    proof cases
      case 1
      with du least rest_sub show ?thesis by (auto simp: st1)
    next
      case 2
      with fin obtain d where "e_dist st a = Some d" "\<forall>t b. (t, b) \<in> set (e_pq st) \<longrightarrow> d \<le> t"
        unfolding e_final_ok_def by blast
      with rest_sub have "e_dist st1 a = Some d \<and> (\<forall>t b. (t, b) \<in> set (e_pq st1) \<longrightarrow> d \<le> t)"
        by (simp add: st1) blast
      then show ?thesis by blast
    qed
  qed
  have 6: "e_relaxed fls start {f \<in> set fls. origin f = u} st1"
    using rel by (auto simp: e_relaxed_def st1)
  have opt_u: "T \<le> arrive (last p)" if p: "feasible fls start u ed p" for p
  proof (cases "start \<in> set (e_visited st)")
    case False
    with s have "dom (e_dist st) = {start}" by (simp add: e_start_ok_def)
    with du have "u = start" by auto
    with s du have "T = ed" by (simp add: e_start_ok_def)
    with feasible_arrival[OF p vf] show ?thesis by simp
  next
    case True
    from feasible_leaves_finalised[OF s fin opt True vf p] nv
    obtain f d where f: "f \<in> set fls" "origin f \<in> set (e_visited st)" "dest f \<notin> set (e_visited st)"
      "e_dist st (origin f) = Some d" "required start (origin f) d \<le> depart f"
      "arrive f \<le> arrive (last p)" by blast
    with rel obtain d' where d': "e_dist st (dest f) = Some d'" "d' \<le> arrive f"
      unfolding e_relaxed_def by blast
    with l f(3) have "(d', dest f) \<in> set (e_pq st)" by (auto simp: e_label_queued_def)
    from least[OF this] d'(2) f(6) show ?thesis by simp
  qed
  have 7: "e_optimal fls start ed st1"
    unfolding e_optimal_def
  proof (intro allI impI, elim conjE)
    fix a p d assume a: "a \<in> set (e_visited st1)" and p: "feasible fls start a ed p"
      and ad: "e_dist st1 a = Some d"
    from a consider "a = u" | "a \<in> set (e_visited st)" by (auto simp: st1)
    then show "d \<le> arrive (last p)"
    proof cases
      case 1
      with opt_u[of p] p ad du show ?thesis by (simp add: st1)
    next
      case 2
      with opt p ad show ?thesis by (auto simp: e_optimal_def st1)
    qed
  qed
  from 1 2 3 4 5 6 7 show "e_inv fls start ed {f \<in> set fls. origin f = u} st1"
    by (simp add: e_inv_def)
  from du show "e_dist st1 u = Some T" by (simp add: st1)
  from fin_le show "\<forall>a \<in> set (e_visited st1). \<exists>d. e_dist st1 a = Some d \<and> d \<le> T" .
  from sv show "start \<in> set (e_visited st1)" .
qed


lemma earliest_relax_required:
  "earliest_relax start u T f s =
     (if required start u T \<le> depart f \<and>
         (case e_dist s (dest f) of None \<Rightarrow> True | Some d \<Rightarrow> arrive f < d)
      then s\<lparr>e_dist := (e_dist s)(dest f \<mapsto> arrive f), e_prev := (e_prev s)(dest f \<mapsto> f),
              e_pq := e_pq s @ [(arrive f, dest f)]\<rparr>
      else s)"
  by (simp add: earliest_relax_def required_def Let_def heappush_def)

text \<open>Relaxing one flight out of the airport finalised in this pass.\<close>

lemma earliest_relax_inv:
  assumes inv: "e_inv fls start ed P s" and vf: "valid_flights fls"
    and f: "f \<in> set fls" "origin f = u"
    and du: "e_dist s u = Some T"
    and le: "\<forall>a \<in> set (e_visited s). \<exists>d. e_dist s a = Some d \<and> d \<le> T"
    and sv: "start \<in> set (e_visited s)" and uv: "u \<in> set (e_visited s)"
  shows "e_inv fls start ed (P - {f}) (earliest_relax start u T f s) \<and>
         e_dist (earliest_relax start u T f s) u = Some T \<and>
         (\<forall>a \<in> set (e_visited s). \<exists>d. e_dist (earliest_relax start u T f s) a = Some d \<and> d \<le> T)"
proof (cases "required start u T \<le> depart f \<and>
         (case e_dist s (dest f) of None \<Rightarrow> True | Some d \<Rightarrow> arrive f < d)")
  case False
  have same: "earliest_relax start u T f s = s"
    unfolding earliest_relax_required by (rule if_not_P[OF False])
  from inv have rel: "e_relaxed fls start P s" by (simp add: e_inv_def)
  have "e_relaxed fls start (P - {f}) s"
    unfolding e_relaxed_def
  proof (intro allI impI, elim conjE)
    fix h d assume h: "origin h \<in> set (e_visited s)" "h \<in> set fls" "h \<notin> P - {f}"
      "e_dist s (origin h) = Some d" "required start (origin h) d \<le> depart h"
    show "\<exists>d'. e_dist s (dest h) = Some d' \<and> d' \<le> arrive h"
    proof (cases "h = f")
      case True
      with h f du have "required start u T \<le> depart f" by simp
      with False obtain d' where "e_dist s (dest f) = Some d'" "\<not> arrive f < d'"
        by (auto split: option.splits)
      with True show ?thesis by auto
    next
      case False
      with h rel show ?thesis unfolding e_relaxed_def by blast
    qed
  qed
  with inv same du le show ?thesis by (simp add: e_inv_def)
next
  case True
  define w where "w = dest f"
  define s' where "s' = s\<lparr>e_dist := (e_dist s)(w \<mapsto> arrive f), e_prev := (e_prev s)(w \<mapsto> f),
              e_pq := e_pq s @ [(arrive f, w)]\<rparr>"
  from True have s': "earliest_relax start u T f s = s'"
    by (simp add: earliest_relax_required s'_def w_def)
  from True have elig: "required start u T \<le> depart f"
    and impr: "e_dist s w = None \<or> (\<exists>d. e_dist s w = Some d \<and> arrive f < d)"
    by (auto simp: w_def split: option.splits)
  from vf f(1) have "depart f < arrive f" by (simp add: valid_flights_def)
  with elig required_bounds(1)[of T start u] have Tf: "T < arrive f" by simp
  have wnv: "w \<notin> set (e_visited s)"
  proof
    assume "w \<in> set (e_visited s)"
    with le obtain d where "e_dist s w = Some d" "d \<le> T" by blast
    with impr Tf show False by auto
  qed
  with sv uv have wne: "w \<noteq> start" "w \<noteq> u" by auto
  from inv have q: "e_queue_ok s" and l: "e_label_queued s" and st: "e_start_ok start ed s"
    and pr: "e_prev_ok fls start s" and fin: "e_final_ok s" and rel: "e_relaxed fls start P s"
    and opt: "e_optimal fls start ed s"
    by (simp_all add: e_inv_def)
  have dist_other: "e_dist s' a = e_dist s a" if "a \<noteq> w" for a
    using that by (simp add: s'_def)
  have dist_vis: "e_dist s' a = e_dist s a" if "a \<in> set (e_visited s)" for a
    using that wnv by (auto simp: s'_def)
  have vis: "e_visited s' = e_visited s" by (simp add: s'_def)
  from st du have edT: "ed \<le> T" by (auto simp: e_start_ok_def)
  have 1: "e_queue_ok s'"
    unfolding e_queue_ok_def
  proof (intro allI impI)
    fix t a assume "(t, a) \<in> set (e_pq s')"
    then consider "(t, a) \<in> set (e_pq s)" | "t = arrive f" "a = w" by (auto simp: s'_def)
    then show "\<exists>d. e_dist s' a = Some d \<and> d \<le> t"
    proof cases
      case 1
      with q obtain d where d: "e_dist s a = Some d" "d \<le> t" by (auto simp: e_queue_ok_def)
      show ?thesis
      proof (cases "a = w")
        case True
        with d impr have "arrive f < d" by auto
        with d True show ?thesis by (simp add: s'_def)
      next
        case False
        with d show ?thesis by (simp add: s'_def)
      qed
    next
      case 2
      then show ?thesis by (simp add: s'_def)
    qed
  qed
  have 2: "e_label_queued s'"
    using l by (auto simp: e_label_queued_def s'_def)
  have 3: "e_start_ok start ed s'"
    using st wne(1) sv edT Tf by (auto simp: e_start_ok_def s'_def)
  have 4: "e_prev_ok fls start s'"
    unfolding e_prev_ok_def
  proof (rule conjI; intro allI impI)
    fix a h assume ah: "e_prev s' a = Some h"
    show "dest h = a \<and> h \<in> set fls \<and> e_dist s' a = Some (arrive h) \<and>
        origin h \<in> set (e_visited s') \<and>
        (\<exists>du. e_dist s' (origin h) = Some du \<and> required start (origin h) du \<le> depart h)"
    proof (cases "a = w")
      case True
      with ah have "h = f" by (simp add: s'_def)
      with True f uv du elig wne(2) show ?thesis by (simp add: s'_def w_def)
    next
      case False
      with ah have "e_prev s a = Some h" by (simp add: s'_def)
      with pr have h: "dest h = a" "h \<in> set fls" "e_dist s a = Some (arrive h)"
        "origin h \<in> set (e_visited s)"
        "\<exists>du. e_dist s (origin h) = Some du \<and> required start (origin h) du \<le> depart h"
        unfolding e_prev_ok_def by blast+
      with False dist_other[OF False] dist_vis[OF h(4)] vis show ?thesis by simp
    qed
  next
    fix a d assume "e_dist s' a = Some d"
    with pr show "a = start \<or> e_prev s' a \<noteq> None"
      by (cases "a = w") (auto simp: e_prev_ok_def s'_def)
  qed
  have 5: "e_final_ok s'"
    unfolding e_final_ok_def
  proof
    fix a assume a: "a \<in> set (e_visited s')"
    then have a': "a \<in> set (e_visited s)" by (simp add: vis)
    with fin obtain d where d: "e_dist s a = Some d" "\<forall>t b. (t, b) \<in> set (e_pq s) \<longrightarrow> d \<le> t"
      unfolding e_final_ok_def by blast
    from le a' d(1) have "d \<le> T" by auto
    with Tf d(2) have "\<forall>t b. (t, b) \<in> set (e_pq s') \<longrightarrow> d \<le> t"
      by (auto simp: s'_def)
    with d(1) dist_vis[OF a'] show "\<exists>d. e_dist s' a = Some d \<and> (\<forall>t b. (t, b) \<in> set (e_pq s') \<longrightarrow> d \<le> t)"
      by simp
  qed
  have 6: "e_relaxed fls start (P - {f}) s'"
    unfolding e_relaxed_def
  proof (intro allI impI, elim conjE)
    fix h d assume h: "origin h \<in> set (e_visited s')" "h \<in> set fls" "h \<notin> P - {f}"
      "e_dist s' (origin h) = Some d" "required start (origin h) d \<le> depart h"
    from h(1) have ov: "origin h \<in> set (e_visited s)" by (simp add: vis)
    show "\<exists>d'. e_dist s' (dest h) = Some d' \<and> d' \<le> arrive h"
    proof (cases "h = f")
      case True
      then show ?thesis by (simp add: s'_def w_def)
    next
      case False
      with h(3) have "h \<notin> P" by simp
      with rel ov h(2,4,5) dist_vis[OF ov] obtain d' where
        d': "e_dist s (dest h) = Some d'" "d' \<le> arrive h"
        unfolding e_relaxed_def by (metis (no_types, lifting))
      show ?thesis
      proof (cases "dest h = w")
        case True
        with d' impr have "arrive f < d'" by auto
        with d' True show ?thesis by (simp add: s'_def)
      next
        case False
        with d' show ?thesis by (simp add: s'_def)
      qed
    qed
  qed
  have 7: "e_optimal fls start ed s'"
    using opt dist_vis by (auto simp: e_optimal_def vis)
  have 8: "e_dist s' u = Some T" using du wne(2) by (simp add: s'_def)
  have 9: "\<forall>a \<in> set (e_visited s). \<exists>d. e_dist s' a = Some d \<and> d \<le> T"
    using le dist_vis by auto
  from 1 2 3 4 5 6 7 8 9 show ?thesis by (simp add: s' e_inv_def)
qed


lemma earliest_fold_inv:
  assumes vf: "valid_flights fls" and fs: "set fs \<subseteq> {f \<in> set fls. origin f = u}"
    and inv: "e_inv fls start ed P s"
    and du: "e_dist s u = Some T"
    and le: "\<forall>a \<in> set (e_visited s). \<exists>d. e_dist s a = Some d \<and> d \<le> T"
    and sv: "start \<in> set (e_visited s)" and uv: "u \<in> set (e_visited s)"
  shows "e_inv fls start ed (P - set fs) (fold (earliest_relax start u T) fs s)"
  using fs inv du le sv uv
proof (induction fs arbitrary: s P)
  case Nil
  then show ?case by simp
next
  case (Cons f fs)
  from Cons.prems(1) have f: "f \<in> set fls" "origin f = u" and fs: "set fs \<subseteq> {f \<in> set fls. origin f = u}"
    by auto
  note step = earliest_relax_inv[OF Cons.prems(2) vf f Cons.prems(3,4,5,6)]
  have "e_inv fls start ed (P - {f} - set fs)
      (fold (earliest_relax start u T) fs (earliest_relax start u T f s))"
    using step Cons.prems(5,6) by (intro Cons.IH[OF fs]) simp_all
  moreover have "P - {f} - set fs = P - set (f # fs)" by auto
  ultimately show ?case by simp
qed

text \<open>One pass of the loop keeps the invariant.\<close>

lemma earliest_iter_inv:
  assumes inv: "e_inv fls start ed {} st" and dv: "dst \<notin> set (e_visited st)"
    and vf: "valid_flights fls"
    and it: "earliest_iter (build_graph fls) start dst st = Continue st'"
  shows "e_inv fls start ed {} st' \<and> dst \<notin> set (e_visited st')"
proof (cases rule: earliest_iter_cases[of st "build_graph fls" start dst])
  case exhausted
  with it show ?thesis by simp
next
  case (found t rest)
  with it show ?thesis by simp
next
  case (skip T u rest)
  from it skip(4) have st': "st' = st\<lparr>e_pq := rest\<rparr>" by simp
  note hp = heappop_least[OF skip(1,2)]
  have rest_sub: "x \<in> set (e_pq st)" if "x \<in> set rest" for x
    using that hp(3) set_remove1_subset[of "(T, u)" "e_pq st"] by auto
  from inv have q: "e_queue_ok st" and l: "e_label_queued st" and s: "e_start_ok start ed st"
    and pr: "e_prev_ok fls start st" and fin: "e_final_ok st" and rel: "e_relaxed fls start {} st"
    and opt: "e_optimal fls start ed st"
    by (simp_all add: e_inv_def)
  have 1: "e_queue_ok st'" using q rest_sub by (auto simp: e_queue_ok_def st')
  have 2: "e_label_queued st'"
    unfolding e_label_queued_def
  proof (intro allI impI)
    fix a d assume "e_dist st' a = Some d"
    then have ad: "e_dist st a = Some d" by (simp add: st')
    show "a \<in> set (e_visited st') \<or> (d, a) \<in> set (e_pq st')"
    proof (cases "a \<in> set (e_visited st)")
      case True
      then show ?thesis by (simp add: st')
    next
      case False
      with l ad have "(d, a) \<in> set (e_pq st)" by (auto simp: e_label_queued_def)
      moreover from False skip(3) have "(d, a) \<noteq> (T, u)" by auto
      ultimately have "(d, a) \<in> set (remove1 (T, u) (e_pq st))" by (rule in_set_remove1_other)
      then show ?thesis by (simp add: st' hp(3))
    qed
  qed
  have 3: "e_start_ok start ed st'" using s by (auto simp: e_start_ok_def st')
  have 4: "e_prev_ok fls start st'" using pr by (auto simp: e_prev_ok_def st')
  have 5: "e_final_ok st'"
    unfolding e_final_ok_def
  proof
    fix a assume "a \<in> set (e_visited st')"
    with fin obtain d where "e_dist st a = Some d" "\<forall>t b. (t, b) \<in> set (e_pq st) \<longrightarrow> d \<le> t"
      unfolding e_final_ok_def st' by auto
    with rest_sub have "e_dist st' a = Some d \<and> (\<forall>t b. (t, b) \<in> set (e_pq st') \<longrightarrow> d \<le> t)"
      by (simp add: st') blast
    then show "\<exists>d. e_dist st' a = Some d \<and> (\<forall>t b. (t, b) \<in> set (e_pq st') \<longrightarrow> d \<le> t)" by blast
  qed
  have 6: "e_relaxed fls start {} st'" using rel by (auto simp: e_relaxed_def st')
  have 7: "e_optimal fls start ed st'" using opt by (auto simp: e_optimal_def st')
  from 1 2 3 4 5 6 7 dv show ?thesis by (simp add: e_inv_def st')
next
  case (relax T u rest)
  define st1 where "st1 = st\<lparr>e_pq := rest, e_visited := e_visited st @ [u]\<rparr>"
  note pop = earliest_pop[OF inv vf relax(1,2,3) st1_def]
  have fs: "set (graph_get (build_graph fls) u) \<subseteq> {f \<in> set fls. origin f = u}"
    by (auto simp: graph_get_build_graph)
  have uv: "u \<in> set (e_visited st1)" by (simp add: st1_def)
  from earliest_fold_inv[OF vf fs pop(1,2,3,4) uv]
  have "e_inv fls start ed ({f \<in> set fls. origin f = u} - set (graph_get (build_graph fls) u))
      (fold (earliest_relax start u T) (graph_get (build_graph fls) u) st1)" .
  moreover have "{f \<in> set fls. origin f = u} - set (graph_get (build_graph fls) u) = {}"
    by (auto simp: graph_get_build_graph)
  moreover from it relax(5) have "st' = fold (earliest_relax start u T) (graph_get (build_graph fls) u) st1"
    by (simp add: st1_def)
  ultimately have "e_inv fls start ed {} st'" by simp
  moreover from \<open>st' = _\<close> dv relax(4) have "dst \<notin> set (e_visited st')" by (simp add: st1_def)
  ultimately show ?thesis by blast
qed


section \<open>The predecessor chain\<close>

text \<open>The steps of the backward walk: from an airport to the origin of its predecessor.\<close>

definition pred_rel :: "(string \<rightharpoonup> flight) \<Rightarrow> (string \<times> string) set" where
  "pred_rel prev = {(b, a). \<exists>f. prev a = Some f \<and> origin f = b}"

lemma reconstruct_walk_terminates:
  assumes "wf (pred_rel prev)"
  shows "\<exists>p. reconstruct_walk prev a acc = Some p"
  using assms
proof (induction a arbitrary: acc rule: wf_induct_rule)
  case (less a)
  show ?case
  proof (cases "prev a")
    case None
    then have "reconstruct_walk prev a acc = Some acc"
      by (subst reconstruct_walk.simps) simp
    then show ?thesis by blast
  next
    case (Some f)
    then have "(origin f, a) \<in> pred_rel prev" by (simp add: pred_rel_def)
    from less[OF this, of "acc @ [f]"] obtain p where
      "reconstruct_walk prev (origin f) (acc @ [f]) = Some p" by blast
    with Some have "reconstruct_walk prev a acc = Some p"
      by (subst reconstruct_walk.simps) simp
    then show ?thesis by blast
  qed
qed

lemma earliest_pred_rel_wf:
  assumes s: "e_start_ok start ed st" and pr: "e_prev_ok fls start st" and vf: "valid_flights fls"
  shows "wf (pred_rel (e_prev st))"
proof (rule wf_subset[OF wf_measure[of "\<lambda>a. nat (the (e_dist st a) - ed)"]], rule subsetI)
  fix x assume "x \<in> pred_rel (e_prev st)"
  then obtain b a f where x: "x = (b, a)" and f: "e_prev st a = Some f" "origin f = b"
    by (auto simp: pred_rel_def)
  from pr f(1) obtain du where h: "f \<in> set fls" "e_dist st a = Some (arrive f)"
    "e_dist st (origin f) = Some du" "required start (origin f) du \<le> depart f"
    unfolding e_prev_ok_def by blast
  from vf h(1) have "depart f < arrive f" by (simp add: valid_flights_def)
  with h(4) required_bounds(1)[of du start "origin f"] have "du < arrive f" by simp
  moreover from s h(3) have "ed \<le> du" by (auto simp: e_start_ok_def)
  ultimately show "x \<in> measure (\<lambda>a. nat (the (e_dist st a) - ed))"
    using h(2,3) f(2) by (simp add: x)
qed

text \<open>
  From a finalised airport the backward walk returns a feasible itinerary from the start
  that arrives at the airport's label.
\<close>

lemma earliest_walk_feasible:
  assumes s: "e_start_ok start ed st" and pr: "e_prev_ok fls start st" and fin: "e_final_ok st"
    and vf: "valid_flights fls" and av: "a \<in> set (e_visited st)"
  shows "\<exists>p. reconstruct_walk (e_prev st) a acc = Some (acc @ rev p) \<and>
     (if a = start then p = []
      else feasible fls start a ed p \<and> e_dist st a = Some (arrive (last p)))"
  using av
proof (induction "nat (the (e_dist st a) - ed)" arbitrary: a acc rule: less_induct)
  case less
  show ?case
  proof (cases "a = start")
    case True
    with s have "e_prev st a = None" by (simp add: e_start_ok_def)
    then have "reconstruct_walk (e_prev st) a acc = Some acc"
      by (subst reconstruct_walk.simps) simp
    with True show ?thesis by simp
  next
    case False
    from fin less.prems obtain d where d: "e_dist st a = Some d" by (auto simp: e_final_ok_def)
    with pr False obtain f where f: "e_prev st a = Some f" unfolding e_prev_ok_def by blast
    with pr obtain du where h: "dest f = a" "f \<in> set fls" "e_dist st a = Some (arrive f)"
      "origin f \<in> set (e_visited st)"
      "e_dist st (origin f) = Some du" "required start (origin f) du \<le> depart f"
      unfolding e_prev_ok_def by blast
    from vf h(2) have "depart f < arrive f" by (simp add: valid_flights_def)
    with h(6) required_bounds(1)[of du start "origin f"] have "du < arrive f" by simp
    moreover from s h(5) have "ed \<le> du" by (auto simp: e_start_ok_def)
    ultimately have "nat (the (e_dist st (origin f)) - ed) < nat (the (e_dist st a) - ed)"
      using h(3,5) by simp
    from less.hyps[OF this h(4), of "acc @ [f]"] obtain pc where
      pc: "reconstruct_walk (e_prev st) (origin f) (acc @ [f]) = Some ((acc @ [f]) @ rev pc)"
      "if origin f = start then pc = []
       else feasible fls start (origin f) ed pc \<and> e_dist st (origin f) = Some (arrive (last pc))"
      by blast
    from f pc(1) have w: "reconstruct_walk (e_prev st) a acc = Some (acc @ rev (pc @ [f]))"
      by (subst reconstruct_walk.simps) simp
    have "feasible fls start a ed (pc @ [f])"
    proof (cases "origin f = start")
      case True
      with pc(2) s h(5,6) h(1,2) show ?thesis
        by (simp add: feasible_single e_start_ok_def required_def)
    next
      case ne: False
      with pc(2) have pcf: "feasible fls start (origin f) ed pc"
        and "e_dist st (origin f) = Some (arrive (last pc))" by simp_all
      with h(5,6) ne have "arrive (last pc) + MIN_LAYOVER_MINUTES \<le> depart f"
        by (simp add: required_def)
      moreover from pcf have "pc \<noteq> []" by (simp add: feasible_def)
      ultimately show ?thesis using pcf h(1,2) by (simp add: feasible_snoc)
    qed
    with w h(3) False show ?thesis by (intro exI[of _ "pc @ [f]"]) simp
  qed
qed


section \<open>Result of the earliest-arrival search\<close>

lemma earliest_passes_inv:
  assumes vf: "valid_flights fls"
    and n: "passes (earliest_iter (build_graph fls) start dst) n (earliest_init start ed) = r"
  shows "case r of
      Continue st \<Rightarrow> e_inv fls start ed {} st \<and> dst \<notin> set (e_visited st)
    | _ \<Rightarrow> \<exists>s. (e_inv fls start ed {} s \<and> dst \<notin> set (e_visited s)) \<and>
          earliest_iter (build_graph fls) start dst s = r"
proof (rule passes_invariant[OF n])
  show "e_inv fls start ed {} (earliest_init start ed) \<and> dst \<notin> set (e_visited (earliest_init start ed))"
    using e_inv_init by (simp add: earliest_init_def)
next
  fix s s'
  assume "e_inv fls start ed {} s \<and> dst \<notin> set (e_visited s)"
    "earliest_iter (build_graph fls) start dst s = Continue s'"
  then show "e_inv fls start ed {} s' \<and> dst \<notin> set (e_visited s')"
    using earliest_iter_inv[OF _ _ vf] by blast
qed

text \<open>When the destination is finalised, its predecessor chain is an optimal itinerary.\<close>

lemma earliest_found_result:
  assumes inv: "e_inv fls start ed {} s" and dv: "dst \<notin> set (e_visited s)"
    and vf: "valid_flights fls" and ne: "start \<noteq> dst"
    and it: "earliest_iter (build_graph fls) start dst s = Found st"
  shows "\<exists>p. reconstruct_itinerary (e_prev st) dst = Some (Itinerary p) \<and>
     feasible fls start dst ed p \<and> (\<forall>p'. feasible fls start dst ed p' \<longrightarrow> arrive (last p) \<le> arrive (last p'))"
proof (cases rule: earliest_iter_cases[of s "build_graph fls" start dst])
  case exhausted
  with it show ?thesis by simp
next
  case (skip t a rest)
  with it show ?thesis by simp
next
  case (relax t a rest)
  with it show ?thesis by simp
next
  case (found T rest)
  with it have st: "st = s\<lparr>e_pq := rest, e_visited := e_visited s @ [dst]\<rparr>" by simp
  note pop = earliest_pop[OF inv vf found(1,2,3) st]
  from pop(1) have s: "e_start_ok start ed st" and pr: "e_prev_ok fls start st"
    and fin: "e_final_ok st" and opt: "e_optimal fls start ed st"
    by (simp_all add: e_inv_def)
  have dv': "dst \<in> set (e_visited st)" by (simp add: st)
  from earliest_walk_feasible[OF s pr fin vf dv', of "[]"] ne obtain p where
    p: "reconstruct_walk (e_prev st) dst [] = Some (rev p)" "feasible fls start dst ed p"
    "e_dist st dst = Some (arrive (last p))" by auto
  from opt dv' p(3) have "\<forall>p'. feasible fls start dst ed p' \<longrightarrow> arrive (last p) \<le> arrive (last p')"
    unfolding e_optimal_def by blast
  with p show ?thesis by (auto simp: reconstruct_itinerary_def)
qed

text \<open>When the queue runs empty, no feasible itinerary reaches the destination.\<close>

lemma earliest_exhausted_result:
  assumes inv: "e_inv fls start ed {} s" and dv: "dst \<notin> set (e_visited s)"
    and vf: "valid_flights fls"
    and it: "earliest_iter (build_graph fls) start dst s = Exhausted st"
  shows "\<not> feasible fls start dst ed p"
proof
  assume p: "feasible fls start dst ed p"
  from it have e: "e_pq s = []"
    by (cases rule: earliest_iter_cases[of s "build_graph fls" start dst]) auto
  from inv have l: "e_label_queued s" and s: "e_start_ok start ed s"
    and fin: "e_final_ok s" and rel: "e_relaxed fls start {} s" and opt: "e_optimal fls start ed s"
    by (simp_all add: e_inv_def)
  from s l e have sv: "start \<in> set (e_visited s)"
    by (auto simp: e_start_ok_def e_label_queued_def)
  from feasible_leaves_finalised[OF s fin opt sv vf p] dv
  obtain f d where f: "f \<in> set fls" "origin f \<in> set (e_visited s)" "dest f \<notin> set (e_visited s)"
    "e_dist s (origin f) = Some d" "required start (origin f) d \<le> depart f" by blast
  with rel obtain d' where "e_dist s (dest f) = Some d'" unfolding e_relaxed_def by blast
  with l f(3) e show False by (auto simp: e_label_queued_def)
qed

text \<open>
  C2, as the code has it: for a graph built from flights that arrive after they depart
  and a start that differs from the destination, \<open>find_earliest_itinerary\<close> returns;
  an itinerary it returns is feasible (its legs connect, the first leg departs at or
  after the requested time, each later leg departs at least 60 minutes after the leg
  before it arrives) and arrives no later than every feasible itinerary from the start to
  the destination; it returns \<open>None\<close> only when there is no feasible itinerary.
\<close>

theorem earliest_itinerary_feasible_and_optimal:
  assumes "valid_flights fls" and "start \<noteq> dst"
  shows "\<exists>r. find_earliest_itinerary (build_graph fls) start dst ed = Some r \<and>
     (case r of
        Some it \<Rightarrow> feasible fls start dst ed (flights it) \<and>
          (\<exists>m. arrive_time it = Some m \<and> (\<forall>p. feasible fls start dst ed p \<longrightarrow> m \<le> arrive (last p)))
      | None \<Rightarrow> (\<forall>p. \<not> feasible fls start dst ed p))"
proof -
  let ?g = "build_graph fls"
  obtain n where n: "passes (earliest_iter ?g start dst) n (earliest_init start ed)
      = earliest_loop ?g start dst (earliest_init start ed)"
    using earliest_loop_passes by blast
  note pi = earliest_passes_inv[OF assms(1) n]
  from earliest_loop_ends[of ?g start dst "earliest_init start ed"]
  show ?thesis
  proof (elim disjE exE)
    fix st assume l: "earliest_loop ?g start dst (earliest_init start ed) = Found st"
    with pi obtain s where s: "e_inv fls start ed {} s" "dst \<notin> set (e_visited s)"
      "earliest_iter ?g start dst s = Found st" by auto
    from earliest_found_result[OF s(1,2) assms s(3)] obtain p where
      p: "reconstruct_itinerary (e_prev st) dst = Some (Itinerary p)" "feasible fls start dst ed p"
      "\<forall>p'. feasible fls start dst ed p' \<longrightarrow> arrive (last p) \<le> arrive (last p')" by blast
    from p(2) have "p \<noteq> []" by (simp add: feasible_def)
    with l p show ?thesis
      by (simp add: find_earliest_itinerary_def arrive_time_def)
  next
    fix st assume l: "earliest_loop ?g start dst (earliest_init start ed) = Exhausted st"
    with pi obtain s where s: "e_inv fls start ed {} s" "dst \<notin> set (e_visited s)"
      "earliest_iter ?g start dst s = Exhausted st" by auto
    from earliest_exhausted_result[OF s(1,2) assms(1) s(3)] l show ?thesis
      by (simp add: find_earliest_itinerary_def)
  qed
qed

theorem earliest_itinerary_feasible_and_optimal_witness:
  "valid_flights [ex_AB, ex_BC, ex_AC] \<and> ''A'' \<noteq> ''C'' \<and>
   find_earliest_itinerary (build_graph [ex_AB, ex_BC, ex_AC]) ''A'' ''C'' 420
     = Some (Some (Itinerary [ex_AB, ex_BC])) \<and>
   feasible [ex_AB, ex_BC, ex_AC] ''A'' ''C'' 420 [ex_AB, ex_BC] \<and>
   arrive_time (Itinerary [ex_AB, ex_BC]) = Some 660 \<and>
   feasible [ex_AB, ex_BC, ex_AC] ''A'' ''C'' 420 [ex_AC] \<and>
   660 \<le> arrive (last [ex_AC])"
proof -
  have vf: "valid_flights [ex_AB, ex_BC, ex_AC]"
    by (simp add: valid_flights_def ex_AB_def ex_BC_def ex_AC_def)
  have ne: "''A'' \<noteq> ''C''" by simp
  have e: "find_earliest_itinerary (build_graph [ex_AB, ex_BC, ex_AC]) ''A'' ''C'' 420
     = Some (Some (Itinerary [ex_AB, ex_BC]))" by code_simp
  have a: "arrive_time (Itinerary [ex_AB, ex_BC]) = Some 660"
    by (simp add: arrive_time_def ex_BC_def)
  have d: "feasible [ex_AB, ex_BC, ex_AC] ''A'' ''C'' 420 [ex_AC]"
    by (simp add: feasible_def ex_AC_def)
  from earliest_itinerary_feasible_and_optimal[OF vf ne, of 420] e a d
  have "feasible [ex_AB, ex_BC, ex_AC] ''A'' ''C'' 420 [ex_AB, ex_BC] \<and>
     660 \<le> arrive (last [ex_AC])"
    by auto
  with vf ne e a d show ?thesis by blast
qed

text \<open>
  C2 as stated fails when the start is the destination: on the round trip from A to B and
  back the search returns the itinerary with no flight, which has no arrival time, while
  the round trip is a feasible itinerary from A to A.
\<close>

theorem earliest_same_airport_not_optimal:
  "find_earliest_itinerary (build_graph [ex_AB, ex_BA]) ''A'' ''A'' 420 = Some (Some (Itinerary [])) \<and>
   arrive_time (Itinerary []) = None \<and>
   \<not> feasible [ex_AB, ex_BA] ''A'' ''A'' 420 (flights (Itinerary [])) \<and>
   feasible [ex_AB, ex_BA] ''A'' ''A'' 420 [ex_AB, ex_BA] \<and>
   valid_flights [ex_AB, ex_BA]"
  by (simp add: find_earliest_same_airport arrive_time_def feasible_def valid_flights_def
      ex_AB_def ex_BA_def MIN_LAYOVER_MINUTES_def)

section \<open>Invariant of the cheapest-fare search\<close>

definition nonneg_fares :: "flight list \<Rightarrow> bool" where
  "nonneg_fares fls \<longleftrightarrow> (\<forall>f \<in> set fls. 0 \<le> economy f \<and> 0 \<le> business f \<and> 0 \<le> first f)"

lemma price_for_nonneg:
  "nonneg_fares fls \<Longrightarrow> f \<in> set fls \<Longrightarrow> price_for f cabin = Inr p \<Longrightarrow> 0 \<le> p"
  by (auto simp: nonneg_fares_def price_for_def split: if_splits)

text \<open>
  Every entry of the queue is for a labelled airport and is not below its label; labels
  are not negative; the start keeps the label 0 and has no predecessor; the label of the
  origin of a predecessor is not above the label of the airport; and the backward walk
  ends from every airport.
\<close>

definition c_inv :: "string \<Rightarrow> cstate \<Rightarrow> bool" where
  "c_inv start st \<longleftrightarrow>
     (\<forall>c t a. (c, t, a) \<in> set (c_pq st) \<longrightarrow> (\<exists>d. c_dist st a = Some d \<and> d \<le> c)) \<and>
     (\<forall>a d. c_dist st a = Some d \<longrightarrow> 0 \<le> d) \<and>
     c_dist st start = Some 0 \<and> c_prev st start = None \<and>
     (\<forall>a f. c_prev st a = Some f \<longrightarrow>
        (\<exists>db da. c_dist st (origin f) = Some db \<and> c_dist st a = Some da \<and> db \<le> da)) \<and>
     wf (pred_rel (c_prev st))"

lemma c_inv_init: "c_inv start (cheapest_init start ed)"
  by (auto simp: c_inv_def cheapest_init_def pred_rel_def)

lemma pred_rel_labels:
  assumes "(x, y) \<in> (pred_rel prev)\<^sup>*"
    and "\<forall>a f. prev a = Some f \<longrightarrow>
        (\<exists>db da. dist (origin f) = Some db \<and> dist a = Some da \<and> db \<le> (da :: int))"
  shows "x = y \<or> (\<exists>dx dy. dist x = Some dx \<and> dist y = Some dy \<and> dx \<le> dy)"
  using assms(1)
proof (induction rule: rtrancl_induct)
  case base
  then show ?case by simp
next
  case (step y z)
  from step(2) obtain f where f: "prev z = Some f" "origin f = y" by (auto simp: pred_rel_def)
  with assms(2) obtain db da where d: "dist y = Some db" "dist z = Some da" "db \<le> da" by blast
  with step(3) show ?case by auto
qed

lemma cheapest_relax_inv:
  assumes inv: "c_inv start s" and nf: "nonneg_fares fls" and f: "f \<in> set fls" "origin f = u"
    and cu: "\<exists>d. c_dist s u = Some d \<and> d \<le> cost"
    and r: "cheapest_relax start cabin u cost t f s = Inr s'"
  shows "c_inv start s' \<and> (\<exists>d. c_dist s' u = Some d \<and> d \<le> cost)"
  using r
proof (cases rule: cheapest_relax_cases)
  case same
  with inv cu show ?thesis by simp
next
  case (update p)
  define w where "w = dest f"
  define nc where "nc = cost + p"
  from update(4) have s': "s' = s\<lparr>c_dist := (c_dist s)(w \<mapsto> nc), c_prev := (c_prev s)(w \<mapsto> f),
            c_pq := c_pq s @ [(nc, arrive f, w)]\<rparr>" by (simp add: w_def nc_def)
  from update(3) have impr: "c_dist s w = None \<or> (\<exists>d. c_dist s w = Some d \<and> nc < d)"
    by (auto simp: w_def nc_def split: option.splits)
  from price_for_nonneg[OF nf f(1) update(1)] have p0: "0 \<le> p" .
  from cu obtain du where du: "c_dist s u = Some du" "du \<le> cost" by blast
  from inv have q: "\<forall>c t a. (c, t, a) \<in> set (c_pq s) \<longrightarrow> (\<exists>d. c_dist s a = Some d \<and> d \<le> c)"
    and nn: "\<forall>a d. c_dist s a = Some d \<longrightarrow> 0 \<le> d"
    and st: "c_dist s start = Some 0" "c_prev s start = None"
    and pr: "\<forall>a f. c_prev s a = Some f \<longrightarrow>
        (\<exists>db da. c_dist s (origin f) = Some db \<and> c_dist s a = Some da \<and> db \<le> da)"
    and wf: "wf (pred_rel (c_prev s))"
    by (simp_all add: c_inv_def)
  from nn du have du0: "0 \<le> du" by blast
  with du p0 have nc0: "0 \<le> nc" "du \<le> nc" by (simp_all add: nc_def)
  have wu: "w \<noteq> u"
  proof
    assume "w = u"
    with impr du nc0 show False by auto
  qed
  have ws: "w \<noteq> start"
  proof
    assume "w = start"
    with impr st(1) nc0 show False by auto
  qed
  have 1: "\<forall>c t a. (c, t, a) \<in> set (c_pq s') \<longrightarrow> (\<exists>d. c_dist s' a = Some d \<and> d \<le> c)"
  proof (intro allI impI)
    fix c t' a assume "(c, t', a) \<in> set (c_pq s')"
    then consider "(c, t', a) \<in> set (c_pq s)" | "c = nc" "a = w" by (auto simp: s')
    then show "\<exists>d. c_dist s' a = Some d \<and> d \<le> c"
    proof cases
      case 1
      with q obtain d where d: "c_dist s a = Some d" "d \<le> c" by blast
      show ?thesis
      proof (cases "a = w")
        case True
        with d impr have "nc < d" by auto
        with d True show ?thesis by (simp add: s')
      next
        case False
        with d show ?thesis by (simp add: s')
      qed
    next
      case 2
      then show ?thesis by (simp add: s')
    qed
  qed
  have 2: "\<forall>a d. c_dist s' a = Some d \<longrightarrow> 0 \<le> d"
    using nn nc0 by (auto simp: s')
  have 3: "c_dist s' start = Some 0" "c_prev s' start = None"
    using st ws by (simp_all add: s')
  have 4: "\<forall>a h. c_prev s' a = Some h \<longrightarrow>
        (\<exists>db da. c_dist s' (origin h) = Some db \<and> c_dist s' a = Some da \<and> db \<le> da)"
  proof (intro allI impI)
    fix a h assume ah: "c_prev s' a = Some h"
    show "\<exists>db da. c_dist s' (origin h) = Some db \<and> c_dist s' a = Some da \<and> db \<le> da"
    proof (cases "a = w")
      case True
      with ah have "h = f" by (simp add: s')
      with True f(2) du nc0 wu show ?thesis by (simp add: s')
    next
      case False
      with ah have "c_prev s a = Some h" by (simp add: s')
      with pr obtain db da where d: "c_dist s (origin h) = Some db" "c_dist s a = Some da" "db \<le> da"
        by blast
      show ?thesis
      proof (cases "origin h = w")
        case True
        with d impr have "nc < db" by auto
        with d True False show ?thesis by (simp add: s')
      next
        case ow: False
        with d False show ?thesis by (simp add: s')
      qed
    qed
  qed
  have 5: "wf (pred_rel (c_prev s'))"
  proof (rule wf_subset)
    show "pred_rel (c_prev s') \<subseteq> insert (u, w) (pred_rel (c_prev s))"
      using f(2) by (auto simp: pred_rel_def s' split: if_splits)
    have "(w, u) \<notin> (pred_rel (c_prev s))\<^sup>*"
    proof
      assume "(w, u) \<in> (pred_rel (c_prev s))\<^sup>*"
      from pred_rel_labels[OF this pr] wu obtain dw where "c_dist s w = Some dw" "dw \<le> du"
        using du by auto
      with impr nc0 show False by auto
    qed
    with wf show "wf (insert (u, w) (pred_rel (c_prev s)))" by simp
  qed
  have 6: "\<exists>d. c_dist s' u = Some d \<and> d \<le> cost"
    using du wu by (simp add: s')
  from 1 2 3 4 5 6 show ?thesis unfolding c_inv_def by blast
qed

lemma cheapest_iter_inv:
  assumes inv: "c_inv start st" and nf: "nonneg_fares fls"
    and it: "cheapest_iter (build_graph fls) start dst cabin st = r"
  shows "case r of Continue st' \<Rightarrow> c_inv start st' | Found st' \<Rightarrow> c_inv start st'
      | Exhausted st' \<Rightarrow> c_inv start st' | Raise e \<Rightarrow> True"
proof (cases rule: cheapest_iter_cases[of st "build_graph fls" start dst cabin])
  case exhausted
  with it inv show ?thesis by auto
next
  case (skip cost t a rest)
  from heappop_set(2)[OF skip(1,2)] inv have "c_inv start (st\<lparr>c_pq := rest\<rparr>)"
    by (auto simp: c_inv_def)
  with it skip(4) show ?thesis by auto
next
  case (found cost t rest)
  from heappop_set(2)[OF found(1,2)] inv
  have "c_inv start (st\<lparr>c_pq := rest, c_visited := c_visited st @ [(dst, cost)]\<rparr>)"
    by (auto simp: c_inv_def)
  with it found(4) show ?thesis by auto
next
  case (raise cost t a rest e)
  with it show ?thesis by auto
next
  case (relax cost t a rest st2)
  define st1 where "st1 = st\<lparr>c_pq := rest, c_visited := c_visited st @ [(a, cost)]\<rparr>"
  from heappop_set(2)[OF relax(1,2)] inv have i1: "c_inv start st1"
    by (auto simp: c_inv_def st1_def)
  from heappop_set(1)[OF relax(1,2)] inv have c1: "\<exists>d. c_dist st1 a = Some d \<and> d \<le> cost"
    by (auto simp: c_inv_def st1_def)
  have "c_inv start st2 \<and> (\<exists>d. c_dist st2 a = Some d \<and> d \<le> cost)"
  proof (rule cheapest_relax_all_invariant[where I = "\<lambda>s. c_inv start s \<and> (\<exists>d. c_dist s a = Some d \<and> d \<le> cost)"])
    show "cheapest_relax_all start cabin a cost t (graph_get (build_graph fls) a) st1 = Inr st2"
      using relax(5) by (simp add: st1_def)
    show "c_inv start st1 \<and> (\<exists>d. c_dist st1 a = Some d \<and> d \<le> cost)" using i1 c1 by blast
  next
    fix f s s'
    assume "f \<in> set (graph_get (build_graph fls) a)"
      "c_inv start s \<and> (\<exists>d. c_dist s a = Some d \<and> d \<le> cost)"
      "cheapest_relax start cabin a cost t f s = Inr s'"
    then show "c_inv start s' \<and> (\<exists>d. c_dist s' a = Some d \<and> d \<le> cost)"
      using cheapest_relax_inv[OF _ nf, of start s f a cost cabin t s']
      by (auto simp: graph_get_build_graph)
  qed
  with it relax(6) show ?thesis by auto
qed

lemma cheapest_passes_inv:
  assumes nf: "nonneg_fares fls"
    and n: "passes (cheapest_iter (build_graph fls) start dst cabin) n (cheapest_init start ed) = r"
  shows "case r of Continue st' \<Rightarrow> c_inv start st' | Found st' \<Rightarrow> c_inv start st'
      | Exhausted st' \<Rightarrow> c_inv start st' | Raise e \<Rightarrow> True"
proof -
  have step: "c_inv start s'"
    if "c_inv start s" "cheapest_iter (build_graph fls) start dst cabin s = Continue s'" for s s'
    using cheapest_iter_inv[OF that(1) nf that(2)] by simp
  have *: "case r of Continue s' \<Rightarrow> c_inv start s'
      | _ \<Rightarrow> \<exists>s. c_inv start s \<and> cheapest_iter (build_graph fls) start dst cabin s = r"
    by (rule passes_invariant[OF n, where I = "c_inv start", OF c_inv_init step])
  show ?thesis
  proof (cases r)
    case (Continue s')
    with * show ?thesis by simp
  next
    case (Found s')
    with * obtain s where "c_inv start s" "cheapest_iter (build_graph fls) start dst cabin s = Found s'"
      by auto
    from cheapest_iter_inv[OF this(1) nf this(2)] Found show ?thesis by simp
  next
    case (Exhausted s')
    with * obtain s where "c_inv start s" "cheapest_iter (build_graph fls) start dst cabin s = Exhausted s'"
      by auto
    from cheapest_iter_inv[OF this(1) nf this(2)] Exhausted show ?thesis by simp
  next
    case (Raise e)
    then show ?thesis by simp
  qed
qed


section \<open>The backward walk ends\<close>

definition chain_ends :: "string \<Rightarrow> (string \<rightharpoonup> flight) \<Rightarrow> bool" where
  "chain_ends start prev \<longleftrightarrow>
     prev start = None \<and> wf (pred_rel prev) \<and> (\<forall>a. \<exists>p. reconstruct_walk prev a [] = Some p)"

lemma chain_endsI: "prev start = None \<Longrightarrow> wf (pred_rel prev) \<Longrightarrow> chain_ends start prev"
  by (simp add: chain_ends_def reconstruct_walk_terminates)

lemma all_flights_build_graph: "set (all_flights (build_graph fls)) \<subseteq> set fls"
proof
  fix f assume "f \<in> set (all_flights (build_graph fls))"
  then obtain k fs where k: "(k, fs) \<in> set (build_graph fls)" "f \<in> set fs"
    by (auto simp: all_flights_def)
  have "distinct (map fst (build_graph fls))" by (simp add: build_graph_def distinct_keys_fold)
  with k(1) have "map_of (build_graph fls) k = Some fs" by simp
  then have "graph_get (build_graph fls) k = fs" by (simp add: graph_get_def)
  with k(2) show "f \<in> set fls" by (auto simp: graph_get_build_graph)
qed

lemma valid_times_build_graph: "valid_flights fls \<Longrightarrow> valid_times (build_graph fls)"
  using all_flights_build_graph[of fls] by (auto simp: valid_times_def valid_flights_def)

lemma earliest_iter_chain:
  assumes inv: "e_inv fls start ed {} s" and vf: "valid_flights fls"
    and it: "earliest_iter (build_graph fls) start dst s = r"
  shows "case r of Continue st \<Rightarrow> True | Found st \<Rightarrow> chain_ends start (e_prev st)
      | Exhausted st \<Rightarrow> chain_ends start (e_prev st) | Raise e \<Rightarrow> True"
proof -
  from inv have "e_start_ok start ed s" "e_prev_ok fls start s" by (simp_all add: e_inv_def)
  then have c: "chain_ends start (e_prev s)"
    using earliest_pred_rel_wf[OF _ _ vf] by (auto intro!: chain_endsI simp: e_start_ok_def)
  show ?thesis
    using it c by (cases rule: earliest_iter_cases[of s "build_graph fls" start dst]) auto
qed

lemma earliest_passes_chain:
  assumes vf: "valid_flights fls"
  shows "case passes (earliest_iter (build_graph fls) start dst) n (earliest_init start ed) of
      Continue st \<Rightarrow> chain_ends start (e_prev st) | Found st \<Rightarrow> chain_ends start (e_prev st)
    | Exhausted st \<Rightarrow> chain_ends start (e_prev st) | Raise e \<Rightarrow> True"
proof -
  define r where "r = passes (earliest_iter (build_graph fls) start dst) n (earliest_init start ed)"
  note pi = earliest_passes_inv[OF vf r_def[symmetric]]
  have "case r of
      Continue st \<Rightarrow> chain_ends start (e_prev st) | Found st \<Rightarrow> chain_ends start (e_prev st)
    | Exhausted st \<Rightarrow> chain_ends start (e_prev st) | Raise e \<Rightarrow> True"
  proof (cases r)
    case (Continue st)
    with pi have "e_start_ok start ed st" "e_prev_ok fls start st" by (simp_all add: e_inv_def)
    then have "chain_ends start (e_prev st)"
      using earliest_pred_rel_wf[OF _ _ vf] by (auto intro!: chain_endsI simp: e_start_ok_def)
    with Continue show ?thesis by simp
  next
    case (Found st)
    with pi obtain s where "e_inv fls start ed {} s" "earliest_iter (build_graph fls) start dst s = Found st"
      by auto
    from earliest_iter_chain[OF this(1) vf this(2)] Found show ?thesis by simp
  next
    case (Exhausted st)
    with pi obtain s where "e_inv fls start ed {} s" "earliest_iter (build_graph fls) start dst s = Exhausted st"
      by auto
    from earliest_iter_chain[OF this(1) vf this(2)] Exhausted show ?thesis by simp
  next
    case (Raise e)
    then show ?thesis by simp
  qed
  then show ?thesis by (simp add: r_def)
qed

lemma cheapest_passes_chain:
  assumes nf: "nonneg_fares fls"
  shows "case passes (cheapest_iter (build_graph fls) start dst cabin) n (cheapest_init start ed) of
      Continue st \<Rightarrow> chain_ends start (c_prev st) | Found st \<Rightarrow> chain_ends start (c_prev st)
    | Exhausted st \<Rightarrow> chain_ends start (c_prev st) | Raise e \<Rightarrow> True"
  using cheapest_passes_inv[OF nf refl, of start dst cabin n ed]
  by (auto split: ctl.splits simp: c_inv_def intro!: chain_endsI)

lemma find_earliest_returns:
  assumes vf: "valid_flights fls"
  shows "\<exists>r. find_earliest_itinerary (build_graph fls) start dst ed = Some r"
proof -
  obtain n where n: "passes (earliest_iter (build_graph fls) start dst) n (earliest_init start ed)
      = earliest_loop (build_graph fls) start dst (earliest_init start ed)"
    using earliest_loop_passes by blast
  show ?thesis
  proof (cases "earliest_loop (build_graph fls) start dst (earliest_init start ed)")
    case (Found st)
    with earliest_passes_chain[OF vf, of start dst n ed] n have "chain_ends start (e_prev st)" by simp
    then obtain p where "reconstruct_walk (e_prev st) dst [] = Some p" by (auto simp: chain_ends_def)
    with Found show ?thesis by (simp add: find_earliest_itinerary_def reconstruct_itinerary_def)
  qed (simp_all add: find_earliest_itinerary_def)
qed

lemma find_cheapest_returns:
  assumes vf: "valid_flights fls" and nf: "nonneg_fares fls"
  shows "\<exists>r. find_cheapest_itinerary (build_graph fls) start dst ed cabin = Some r"
proof -
  from cheapest_loop_terminates[OF valid_times_build_graph[OF vf]] obtain r where
    r: "cheapest_loop (build_graph fls) start dst cabin (cheapest_init start ed) = Some r" by blast
  from cheapest_loop_passes[OF r] obtain n where
    n: "passes (cheapest_iter (build_graph fls) start dst cabin) n (cheapest_init start ed) = r" by blast
  show ?thesis
  proof (cases r)
    case (Found st)
    with cheapest_passes_chain[OF nf, of start dst cabin n ed] n have "chain_ends start (c_prev st)"
      by simp
    then obtain p where "reconstruct_walk (c_prev st) dst [] = Some p" by (auto simp: chain_ends_def)
    with Found r show ?thesis by (simp add: find_cheapest_itinerary_def reconstruct_itinerary_def)
  qed (use r in \<open>simp_all add: find_cheapest_itinerary_def\<close>)
qed

text \<open>
  C10: for a graph built from flights that arrive after they depart and have fares that
  are not negative, in every state that a search reaches the start airport has no
  predecessor, the steps from an airport to the origin of its predecessor form a
  well-founded relation (so no chain of them is cyclic or endless) and the backward walk
  of \<open>reconstruct_itinerary\<close> returns from every airport; hence both searches return.
\<close>

theorem predecessor_chains_end:
  assumes "valid_flights fls" and "nonneg_fares fls"
  shows "(case passes (earliest_iter (build_graph fls) start dst) n (earliest_init start ed) of
            Continue st \<Rightarrow> chain_ends start (e_prev st) | Found st \<Rightarrow> chain_ends start (e_prev st)
          | Exhausted st \<Rightarrow> chain_ends start (e_prev st) | Raise e \<Rightarrow> True) \<and>
         (case passes (cheapest_iter (build_graph fls) start dst cabin) m (cheapest_init start ed) of
            Continue st \<Rightarrow> chain_ends start (c_prev st) | Found st \<Rightarrow> chain_ends start (c_prev st)
          | Exhausted st \<Rightarrow> chain_ends start (c_prev st) | Raise e \<Rightarrow> True) \<and>
         (\<exists>r. find_earliest_itinerary (build_graph fls) start dst ed = Some r) \<and>
         (\<exists>r. find_cheapest_itinerary (build_graph fls) start dst ed cabin = Some r)"
  using earliest_passes_chain[OF assms(1)] cheapest_passes_chain[OF assms(2)]
    find_earliest_returns[OF assms(1)] find_cheapest_returns[OF assms]
  by blast

theorem predecessor_chains_end_witness:
  "valid_flights [ex_SU_early, ex_SU_late, ex_UD] \<and> nonneg_fares [ex_SU_early, ex_SU_late, ex_UD] \<and>
   (case passes (cheapest_iter (build_graph [ex_SU_early, ex_SU_late, ex_UD]) ''S'' ''D'' ''economy'') 3
           (cheapest_init ''S'' 420) of
      Continue st \<Rightarrow> chain_ends ''S'' (c_prev st) \<and> c_prev st ''D'' = Some ex_UD
    | _ \<Rightarrow> False) \<and>
   (case passes (earliest_iter (build_graph [ex_SU_early, ex_SU_late, ex_UD]) ''S'' ''D'') 2
           (earliest_init ''S'' 420) of
      Continue st \<Rightarrow> chain_ends ''S'' (e_prev st) \<and> e_prev st ''U'' = Some ex_SU_early
    | _ \<Rightarrow> False)"
proof -
  have vf: "valid_flights [ex_SU_early, ex_SU_late, ex_UD]"
    by (simp add: valid_flights_def ex_SU_early_def ex_SU_late_def ex_UD_def)
  have nf: "nonneg_fares [ex_SU_early, ex_SU_late, ex_UD]"
    by (simp add: nonneg_fares_def ex_SU_early_def ex_SU_late_def ex_UD_def)
  have c: "case passes (cheapest_iter (build_graph [ex_SU_early, ex_SU_late, ex_UD]) ''S'' ''D'' ''economy'') 3
           (cheapest_init ''S'' 420) of
      Continue st \<Rightarrow> c_prev st ''D'' = Some ex_UD | _ \<Rightarrow> False"
    by code_simp
  have e: "case passes (earliest_iter (build_graph [ex_SU_early, ex_SU_late, ex_UD]) ''S'' ''D'') 2
           (earliest_init ''S'' 420) of
      Continue st \<Rightarrow> e_prev st ''U'' = Some ex_SU_early | _ \<Rightarrow> False"
    by code_simp
  from predecessor_chains_end[OF vf nf, of "''S''" "''D''" 2 420 "''economy''" 3] c e
  have "(case passes (cheapest_iter (build_graph [ex_SU_early, ex_SU_late, ex_UD]) ''S'' ''D'' ''economy'') 3
           (cheapest_init ''S'' 420) of
      Continue st \<Rightarrow> chain_ends ''S'' (c_prev st) \<and> c_prev st ''D'' = Some ex_UD
    | _ \<Rightarrow> False) \<and>
   (case passes (earliest_iter (build_graph [ex_SU_early, ex_SU_late, ex_UD]) ''S'' ''D'') 2
           (earliest_init ''S'' 420) of
      Continue st \<Rightarrow> chain_ends ''S'' (e_prev st) \<and> e_prev st ''U'' = Some ex_SU_early
    | _ \<Rightarrow> False)"
    by (auto split: ctl.splits)
  with vf nf show ?thesis by blast
qed

section \<open>Comparison report\<close>

text \<open>
  \<open>str(n)\<close> and the format \<open>02d\<close> of an integer: decimal digits, a minus sign for a
  negative number, and for \<open>02d\<close> a leading zero when the text is shorter than two
  characters.
\<close>

definition digit_char :: "nat \<Rightarrow> char" where
  "digit_char n = ''0123456789'' ! n"

fun digits :: "nat \<Rightarrow> string" where
  "digits n = (if n < 10 then [digit_char n] else digits (n div 10) @ [digit_char (n mod 10)])"

declare digits.simps [simp del]

definition str_int :: "int \<Rightarrow> string" where
  "str_int i = (if i < 0 then CHR ''-'' # digits (nat (- i)) else digits (nat i))"

definition fmt_02d :: "int \<Rightarrow> string" where
  "fmt_02d i = (if 0 \<le> i \<and> i < 10 then CHR ''0'' # str_int i else str_int i)"

text \<open>\<open>format_time\<close> applied to \<open>None\<close> raises \<open>TypeError\<close> at \<open>minutes // 60\<close>.\<close>

definition format_time :: "int option \<Rightarrow> error + string" where
  "format_time minutes =
     (case minutes of
        None \<Rightarrow> Inl TypeError
      | Some mins \<Rightarrow> (let h = mins div 60; m = mins mod 60 in Inr (fmt_02d h @ '':'' @ fmt_02d m)))"

record comparison_row =
  row_mode :: string
  row_cabin :: "string option"
  row_itinerary :: "itinerary option"
  row_note :: string

text \<open>\<open>r.cabin or 'N/A'\<close>: \<open>None\<close> and the empty string are false.\<close>

definition truthy :: "string option \<Rightarrow> bool" where
  "truthy c = (case c of None \<Rightarrow> False | Some s \<Rightarrow> s \<noteq> [])"

definition cabin_or_na :: "string option \<Rightarrow> string" where
  "cabin_or_na c = (if truthy c then the c else ''N/A'')"

definition header :: string where
  "header = ''Mode | Cabin | Dep | Arr | Duration | Stops | Total Price | Note''"

text \<open>The body of \<open>for r in rows\<close>: the line of one row.\<close>

definition format_row :: "comparison_row \<Rightarrow> error + string" where
  "format_row r =
     (case row_itinerary r of
        None \<Rightarrow>
          Inr (row_mode r @ '' | '' @ cabin_or_na (row_cabin r) @
               '' | N/A | N/A | N/A | N/A | N/A | '' @ row_note r)
      | Some it \<Rightarrow>
          (case format_time (depart_time it) of
             Inl e \<Rightarrow> Inl e
           | Inr dep \<Rightarrow>
               (case format_time (arrive_time it) of
                  Inl e \<Rightarrow> Inl e
                | Inr arr \<Rightarrow>
                    (case (arrive_time it, depart_time it) of
                       (Some a, Some d) \<Rightarrow>
                         (let dur = a - d; dh = dur div 60; dm = dur mod 60;
                              duration = str_int dh @ ''h'' @ fmt_02d dm @ ''m'';
                              stops = num_stops it
                          in case (if truthy (row_cabin r)
                                   then map_sum id str_int (total_price it (the (row_cabin r)))
                                   else Inr ''N/A'') of
                               Inl e \<Rightarrow> Inl e
                             | Inr price \<Rightarrow>
                                 Inr (row_mode r @ '' | '' @ cabin_or_na (row_cabin r) @ '' | '' @
                                      dep @ '' | '' @ arr @ '' | '' @ duration @ '' | '' @
                                      str_int stops @ '' | '' @ price @ '' | '' @ row_note r))
                     | _ \<Rightarrow> Inl TypeError))))"

fun format_rows :: "comparison_row list \<Rightarrow> string list \<Rightarrow> error + string list" where
  "format_rows [] lines = Inr lines"
| "format_rows (r # rs) lines =
     (case format_row r of Inl e \<Rightarrow> Inl e | Inr l \<Rightarrow> format_rows rs (lines @ [l]))"

fun join_lines :: "string list \<Rightarrow> string" where
  "join_lines [] = []"
| "join_lines [l] = l"
| "join_lines (l # ls) = l @ [CHR 0x0A] @ join_lines ls"

definition format_comparison_table ::
  "string \<Rightarrow> string \<Rightarrow> int \<Rightarrow> comparison_row list \<Rightarrow> error + string" where
  "format_comparison_table orig dst earliest_departure rows =
     (case format_rows rows [orig @ '' -> '' @ dst, header, replicate (length header) CHR ''-''] of
        Inl e \<Rightarrow> Inl e
      | Inr lines \<Rightarrow> Inr (join_lines lines))"

text \<open>
  The report as the specification words it. A clock time is \<open>HH:MM\<close>, two decimal
  digits each for the hour and the minute of a time in minutes since midnight; a
  duration is \<open>XhYYm\<close>; the sentinel is \<open>N/A\<close>.
\<close>

definition two_digits :: "int \<Rightarrow> string" where
  "two_digits n = [digit_char (nat (n div 10)), digit_char (nat (n mod 10))]"

definition clock :: "int \<Rightarrow> string" where
  "clock t = two_digits (t div 60) @ '':'' @ two_digits (t mod 60)"

definition expected_row :: "comparison_row \<Rightarrow> string" where
  "expected_row r =
     (case row_itinerary r of
        None \<Rightarrow>
          row_mode r @ '' | '' @ (case row_cabin r of None \<Rightarrow> ''N/A'' | Some c \<Rightarrow> c) @
          '' | N/A | N/A | N/A | N/A | N/A | '' @ row_note r
      | Some it \<Rightarrow>
          row_mode r @ '' | '' @ (case row_cabin r of None \<Rightarrow> ''N/A'' | Some c \<Rightarrow> c) @ '' | '' @
          clock (depart (hd (flights it))) @ '' | '' @
          clock (arrive (last (flights it))) @ '' | '' @
          str_int ((arrive (last (flights it)) - depart (hd (flights it))) div 60) @ ''h'' @
          two_digits ((arrive (last (flights it)) - depart (hd (flights it))) mod 60) @ ''m'' @ '' | '' @
          str_int (int (length (flights it)) - 1) @ '' | '' @
          (case row_cabin r of
             None \<Rightarrow> ''N/A''
           | Some c \<Rightarrow> str_int (sum_list (map (fare c) (flights it)))) @ '' | '' @
          row_note r)"

text \<open>
  A row of the data model: the cabin is absent or one of the three tags, and a present
  itinerary has at least one flight and departs and arrives within the day.
\<close>

definition row_ok :: "comparison_row \<Rightarrow> bool" where
  "row_ok r \<longleftrightarrow>
     (case row_cabin r of None \<Rightarrow> True | Some c \<Rightarrow> valid_cabin c) \<and>
     (case row_itinerary r of
        None \<Rightarrow> True
      | Some it \<Rightarrow> flights it \<noteq> [] \<and>
          0 \<le> depart (hd (flights it)) \<and> depart (hd (flights it)) < 1440 \<and>
          0 \<le> arrive (last (flights it)) \<and> arrive (last (flights it)) < 1440)"

lemma digit_char_0: "digit_char 0 = CHR ''0''"
  by (simp add: digit_char_def)

lemma fmt_02d_two_digits:
  assumes "0 \<le> n" "n < 100"
  shows "fmt_02d n = two_digits n"
proof (cases "n < 10")
  case True
  with assms have "nat n < 10" by linarith
  then have "digits (nat n) = [digit_char (nat n)]" by (subst digits.simps) simp
  with True assms show ?thesis
    by (simp add: fmt_02d_def str_int_def two_digits_def digit_char_0)
next
  case False
  with assms have "nat n div 10 < 10" by linarith
  then have "digits (nat n div 10) = [digit_char (nat n div 10)]" by (subst digits.simps) simp
  with False have "digits (nat n) = [digit_char (nat n div 10), digit_char (nat n mod 10)]"
    by (subst digits.simps) simp
  moreover from assms have "nat (n div 10) = nat n div 10" "nat (n mod 10) = nat n mod 10"
    by (simp_all add: nat_div_distrib nat_mod_distrib)
  ultimately show ?thesis using False assms
    by (simp add: fmt_02d_def str_int_def two_digits_def)
qed

lemma format_time_clock:
  assumes "0 \<le> t" "t < 1440"
  shows "format_time (Some t) = Inr (clock t)"
proof -
  from assms have "0 \<le> t div 60" "t div 60 < 100" by simp_all
  then have "fmt_02d (t div 60) = two_digits (t div 60)" by (rule fmt_02d_two_digits)
  moreover have "fmt_02d (t mod 60) = two_digits (t mod 60)"
    by (rule fmt_02d_two_digits) simp_all
  ultimately show ?thesis by (simp add: format_time_def clock_def)
qed

lemma sum_prices_valid:
  "valid_cabin c \<Longrightarrow> sum_prices fl c acc = Inr (acc + sum_list (map (fare c) fl))"
  by (induction fl arbitrary: acc) (simp_all add: price_for_valid_cabin)

lemma truthy_valid: "valid_cabin c \<Longrightarrow> truthy (Some c)"
  by (auto simp: truthy_def valid_cabin_def)

lemma format_row_expected:
  assumes "row_ok r"
  shows "format_row r = Inr (expected_row r)"
proof (cases "row_itinerary r")
  case None
  with assms show ?thesis
    by (auto simp: format_row_def expected_row_def row_ok_def cabin_or_na_def truthy_def
        valid_cabin_def split: option.splits)
next
  case (Some it)
  with assms have ne: "flights it \<noteq> []"
    and d: "0 \<le> depart (hd (flights it))" "depart (hd (flights it)) < 1440"
    and a: "0 \<le> arrive (last (flights it))" "arrive (last (flights it)) < 1440"
    by (simp_all add: row_ok_def)
  from ne have dt: "depart_time it = Some (depart (hd (flights it)))"
    and at: "arrive_time it = Some (arrive (last (flights it)))"
    by (simp_all add: depart_time_def arrive_time_def)
  have m: "fmt_02d ((arrive (last (flights it)) - depart (hd (flights it))) mod 60)
      = two_digits ((arrive (last (flights it)) - depart (hd (flights it))) mod 60)"
    by (rule fmt_02d_two_digits) simp_all
  from ne have st: "num_stops it = int (length (flights it)) - 1"
    by (cases "flights it") (simp_all add: num_stops_def)
  show ?thesis
  proof (cases "row_cabin r")
    case None
    then show ?thesis
      using Some dt at m st format_time_clock[OF d] format_time_clock[OF a]
      by (simp add: format_row_def expected_row_def cabin_or_na_def truthy_def Let_def)
  next
    case (Some c)
    with assms have vc: "valid_cabin c" by (simp add: row_ok_def)
    then show ?thesis
      using Some \<open>row_itinerary r = Some it\<close> dt at m st format_time_clock[OF d] format_time_clock[OF a]
        truthy_valid[OF vc] sum_prices_valid[OF vc, of "flights it" 0]
      by (simp add: format_row_def expected_row_def cabin_or_na_def Let_def total_price_def)
  qed
qed

lemma format_rows_expected:
  "\<forall>r \<in> set rows. row_ok r \<Longrightarrow> format_rows rows lines = Inr (lines @ map expected_row rows)"
  by (induction rows arbitrary: lines) (simp_all add: format_row_expected)

text \<open>
  The report on rows of the data model: the route line, the column header, a rule of
  dashes and one line per row. A row without an itinerary has the sentinel in the five
  numeric columns and carries its note; a row with an itinerary of at least one flight
  has the departure and the arrival as zero-padded \<open>HH:MM\<close>, the duration as \<open>XhYYm\<close>,
  the number of stops, and the total price of the row's cabin when the row has a cabin
  and the sentinel otherwise.
\<close>

theorem comparison_table_renders_rows:
  assumes "\<forall>r \<in> set rows. row_ok r"
  shows "format_comparison_table orig dst earliest_departure rows =
     Inr (join_lines ([orig @ '' -> '' @ dst, header, replicate (length header) CHR ''-'']
                      @ map expected_row rows))"
  using format_rows_expected[OF assms] by (simp add: format_comparison_table_def)

definition ex_row_economy :: comparison_row where
  "ex_row_economy = \<lparr>row_mode = ''Cheapest | economy'', row_cabin = Some ''economy'',
     row_itinerary = Some (Itinerary [ex_AB, ex_BC]), row_note = []\<rparr>"

definition ex_row_absent :: comparison_row where
  "ex_row_absent = \<lparr>row_mode = ''Earliest arrival'', row_cabin = None,
     row_itinerary = None, row_note = ''(no valid itinerary)''\<rparr>"

definition ex_row_empty :: comparison_row where
  "ex_row_empty = \<lparr>row_mode = ''Earliest arrival'', row_cabin = None,
     row_itinerary = Some (Itinerary []), row_note = []\<rparr>"

theorem comparison_table_renders_rows_witness:
  "row_ok ex_row_economy \<and> row_ok ex_row_absent \<and>
   format_comparison_table ''A'' ''C'' 420 [ex_row_economy, ex_row_absent]
   = Inr (''A -> C'' @ [CHR 0x0A] @
          ''Mode | Cabin | Dep | Arr | Duration | Stops | Total Price | Note'' @ [CHR 0x0A] @
          ''----------------------------------------------------------------'' @ [CHR 0x0A] @
          ''Cheapest | economy | economy | 08:00 | 11:00 | 3h00m | 1 | 150 | '' @ [CHR 0x0A] @
          ''Earliest arrival | N/A | N/A | N/A | N/A | N/A | N/A | (no valid itinerary)'')"
proof -
  have ok1: "row_ok ex_row_economy"
    by (simp add: row_ok_def ex_row_economy_def valid_cabin_def ex_AB_def ex_BC_def)
  have ok2: "row_ok ex_row_absent"
    by (simp add: row_ok_def ex_row_absent_def)
  from ok1 ok2 have ok: "\<forall>r \<in> set [ex_row_economy, ex_row_absent]. row_ok r" by simp
  have "join_lines ([''A'' @ '' -> '' @ ''C'', header, replicate (length header) CHR ''-'']
        @ map expected_row [ex_row_economy, ex_row_absent])
    = ''A -> C'' @ [CHR 0x0A] @
          ''Mode | Cabin | Dep | Arr | Duration | Stops | Total Price | Note'' @ [CHR 0x0A] @
          ''----------------------------------------------------------------'' @ [CHR 0x0A] @
          ''Cheapest | economy | economy | 08:00 | 11:00 | 3h00m | 1 | 150 | '' @ [CHR 0x0A] @
          ''Earliest arrival | N/A | N/A | N/A | N/A | N/A | N/A | (no valid itinerary)''"
    by code_simp
  with comparison_table_renders_rows[OF ok, of "''A''" "''C''" 420] ok1 ok2 show ?thesis by simp
qed

text \<open>
  C9: a row with a present itinerary renders its departure, arrival, duration, stops and
  price. The code does not do this for a present itinerary that has no flight, which is
  the itinerary both searches return when the start is the destination and which
  \<open>run_compare\<close> puts in a row: \<open>depart_time\<close> is \<open>None\<close>, \<open>format_time\<close> raises
  \<open>TypeError\<close> at \<open>minutes // 60\<close>, and no report is rendered, while the branch for an
  absent itinerary renders the sentinel.
\<close>

theorem comparison_table_raises_on_empty_itinerary:
  "format_comparison_table ''A'' ''A'' 420 [ex_row_empty] = Inl TypeError \<and>
   row_itinerary ex_row_empty = Some (Itinerary []) \<and>
   find_earliest_itinerary (build_graph [ex_AB, ex_BA]) ''A'' ''A'' 420 = Some (Some (Itinerary []))"
  by (simp add: format_comparison_table_def format_row_def format_time_def depart_time_def
      find_earliest_same_airport ex_row_empty_def)

section \<open>Schedule loaders\<close>

text \<open>
  \<open>str(e)\<close> of an exception: its message.
\<close>

fun error_text :: "error \<Rightarrow> string" where
  "error_text (ValueError msg) = msg"
| "error_text TypeError = []"
| "error_text AttributeError = []"

text \<open>
  \<open>s.split(":")\<close>: the pieces of \<open>s\<close> between the occurrences of the separator.
\<close>

fun split_on :: "char \<Rightarrow> string \<Rightarrow> string list" where
  "split_on c [] = [[]]"
| "split_on c (x # xs) =
     (if x = c then [] # split_on c xs
      else (case split_on c xs of [] \<Rightarrow> [[x]] | w # ws \<Rightarrow> (x # w) # ws))"

text \<open>
  The builtin \<open>int\<close> on text is not code of this repository: the loaders take it as the
  parameter \<open>to_int\<close>, which returns the number or the message of the \<open>ValueError\<close>.
  Unpacking \<open>h, m = ...\<close> raises \<open>ValueError\<close> with a message of the interpreter when
  there are not exactly two pieces.
\<close>

definition parse_time :: "(string \<Rightarrow> string + int) \<Rightarrow> string \<Rightarrow> error + int" where
  "parse_time to_int hhmm =
     (case split_on CHR '':'' hhmm of
        [hs, ms] \<Rightarrow>
          (case to_int hs of
             Inl msg \<Rightarrow> Inl (ValueError msg)
           | Inr h \<Rightarrow>
               (case to_int ms of
                  Inl msg \<Rightarrow> Inl (ValueError msg)
                | Inr m \<Rightarrow>
                    if \<not> (0 \<le> h \<and> h < 24 \<and> 0 \<le> m \<and> m < 60) then Inl (ValueError [])
                    else Inr (h * 60 + m)))
      | [hs] \<Rightarrow> Inl (ValueError ''not enough values to unpack (expected 2, got 1)'')
      | _ \<Rightarrow> Inl (ValueError ''too many values to unpack (expected 2)''))"

text \<open>
  Whitespace of \<open>str.strip()\<close> and \<open>str.split()\<close>, for characters up to code 255.
\<close>

definition is_space :: "char \<Rightarrow> bool" where
  "is_space c \<longleftrightarrow> (of_char c :: nat) \<in> {9, 10, 11, 12, 13, 28, 29, 30, 31, 32, 133, 160}"

definition strip :: "string \<Rightarrow> string" where
  "strip s = rev (dropWhile is_space (rev (dropWhile is_space s)))"

fun split_ws_from :: "string \<Rightarrow> string \<Rightarrow> string list" where
  "split_ws_from [] w = (if w = [] then [] else [w])"
| "split_ws_from (c # cs) w =
     (if is_space c then (if w = [] then split_ws_from cs [] else w # split_ws_from cs [])
      else split_ws_from cs (w @ [c]))"

definition split_ws :: "string \<Rightarrow> string list" where
  "split_ws s = split_ws_from s []"

text \<open>\<open>parse_flight_line_txt\<close>: \<open>Inr None\<close> for a blank line or a comment.\<close>

definition parse_flight_line_txt ::
  "(string \<Rightarrow> string + int) \<Rightarrow> string \<Rightarrow> error + flight option" where
  "parse_flight_line_txt to_int line0 =
     (let line = strip line0 in
      if line = [] \<or> hd line = CHR ''#'' then Inr None
      else
        (case split_ws line of
           [orig, dst, num, de, ar, e, b, f] \<Rightarrow>
             (case parse_time to_int de of
                Inl err \<Rightarrow> Inl err
              | Inr dep \<Rightarrow>
                  (case parse_time to_int ar of
                     Inl err \<Rightarrow> Inl err
                   | Inr arr \<Rightarrow>
                       if arr \<le> dep then Inl (ValueError [])
                       else
                         (case to_int e of
                            Inl msg \<Rightarrow> Inl (ValueError msg)
                          | Inr ei \<Rightarrow>
                              (case to_int b of
                                 Inl msg \<Rightarrow> Inl (ValueError msg)
                               | Inr bi \<Rightarrow>
                                   (case to_int f of
                                      Inl msg \<Rightarrow> Inl (ValueError msg)
                                    | Inr fi \<Rightarrow>
                                        Inr (Some \<lparr>origin = orig, dest = dst, flight_number = num,
                                          depart = dep, arrive = arr, economy = ei, business = bi,
                                          first = fi\<rparr>))))))
         | _ \<Rightarrow> Inl (ValueError [])))"

text \<open>
  \<open>load_flights_txt\<close> on the lines of the file: \<open>i\<close> is the number of the line, from 1.
\<close>

fun load_txt_lines ::
  "(string \<Rightarrow> string + int) \<Rightarrow> string \<Rightarrow> int \<Rightarrow> string list \<Rightarrow> flight list \<Rightarrow> error + flight list" where
  "load_txt_lines to_int path i [] fls = Inr fls"
| "load_txt_lines to_int path i (line # rest) fls =
     (case parse_flight_line_txt to_int line of
        Inl e \<Rightarrow> Inl (ValueError (path @ '':'' @ str_int i @ '': '' @ error_text e))
      | Inr None \<Rightarrow> load_txt_lines to_int path (i + 1) rest fls
      | Inr (Some f) \<Rightarrow> load_txt_lines to_int path (i + 1) rest (fls @ [f]))"

definition load_flights_txt ::
  "(string \<Rightarrow> string + int) \<Rightarrow> string \<Rightarrow> string list \<Rightarrow> error + flight list" where
  "load_flights_txt to_int path lines = load_txt_lines to_int path 1 lines []"

text \<open>
  \<open>load_flights_csv\<close> on the result of \<open>csv.DictReader\<close>, which is not code of this
  repository: the field names of the header row and, for each data row, the text of each
  field. (A row shorter than the header has \<open>None\<close> in its last fields, and the fields of
  a longer row beyond the header go under the key \<open>None\<close>; the model takes rows where
  each named field has text.)
\<close>

fun load_csv_rows ::
  "(string \<Rightarrow> string + int) \<Rightarrow> (string \<Rightarrow> string) list \<Rightarrow> flight list \<Rightarrow> error + flight list" where
  "load_csv_rows to_int [] fls = Inr fls"
| "load_csv_rows to_int (row # rest) fls =
     (case parse_time to_int (row ''depart'') of
        Inl err \<Rightarrow> Inl err
      | Inr dep \<Rightarrow>
          (case parse_time to_int (row ''arrive'') of
             Inl err \<Rightarrow> Inl err
           | Inr arr \<Rightarrow>
               if arr \<le> dep then Inl (ValueError [])
               else
                 (case to_int (row ''economy'') of
                    Inl msg \<Rightarrow> Inl (ValueError msg)
                  | Inr ei \<Rightarrow>
                      (case to_int (row ''business'') of
                         Inl msg \<Rightarrow> Inl (ValueError msg)
                       | Inr bi \<Rightarrow>
                           (case to_int (row ''first'') of
                              Inl msg \<Rightarrow> Inl (ValueError msg)
                            | Inr fi \<Rightarrow>
                                load_csv_rows to_int rest
                                  (fls @ [\<lparr>origin = row ''origin'', dest = row ''dest'',
                                     flight_number = row ''flight_number'', depart = dep,
                                     arrive = arr, economy = ei, business = bi, first = fi\<rparr>]))))))"

definition load_flights_csv ::
  "(string \<Rightarrow> string + int) \<Rightarrow> string list \<Rightarrow> (string \<Rightarrow> string) list \<Rightarrow> error + flight list" where
  "load_flights_csv to_int fieldnames rows =
     (if \<exists>r \<in> set [''origin'', ''dest'', ''flight_number'', ''depart'', ''arrive'', ''economy'',
                     ''business'', ''first'']. r \<notin> set fieldnames
      then Inl (ValueError [])
      else load_csv_rows to_int rows [])"

text \<open>
  For running the loaders on an input: \<open>int\<close> on a text of decimal digits with an
  optional minus sign.
\<close>

definition ascii_int :: "string \<Rightarrow> string + int" where
  "ascii_int s =
     (let ds = (if s \<noteq> [] \<and> hd s = CHR ''-'' then tl s else s) in
      if ds \<noteq> [] \<and> (\<forall>c \<in> set ds. CHR ''0'' \<le> c \<and> c \<le> CHR ''9'')
      then (let n = fold (\<lambda>c n. 10 * n + (int (of_char c) - 48)) ds 0 in
            Inr (if s \<noteq> [] \<and> hd s = CHR ''-'' then - n else n))
      else Inl (''invalid literal for int() with base 10: '' @ [CHR 0x27] @ s @ [CHR 0x27]))"

definition ex_csv_row :: "string \<Rightarrow> string" where
  "ex_csv_row k =
     (if k = ''origin'' then ''A'' else if k = ''dest'' then ''B''
      else if k = ''flight_number'' then ''X1'' else if k = ''depart'' then ''09:00''
      else if k = ''arrive'' then ''08:00'' else ''1'')"

definition ex_csv_header :: "string list" where
  "ex_csv_header = [''origin'', ''dest'', ''flight_number'', ''depart'', ''arrive'', ''economy'',
     ''business'', ''first'']"

definition ex_csv_row_good :: "string \<Rightarrow> string" where
  "ex_csv_row_good k =
     (if k = ''origin'' then ''A'' else if k = ''dest'' then ''B''
      else if k = ''flight_number'' then ''X1'' else if k = ''depart'' then ''08:00''
      else if k = ''arrive'' then ''09:00'' else ''1'')"

text \<open>
  The text loader: when a line fails to parse and the lines before it parse, the load
  raises \<open>ValueError\<close> with the path and the number of that line, and returns no list.
\<close>

lemma load_txt_lines_rejects:
  assumes "\<forall>l' \<in> set pre. \<exists>r. parse_flight_line_txt to_int l' = Inr r"
    and "parse_flight_line_txt to_int l = Inl e"
  shows "load_txt_lines to_int path i (pre @ l # post) fls =
     Inl (ValueError (path @ '':'' @ str_int (i + int (length pre)) @ '': '' @ error_text e))"
  using assms(1)
proof (induction pre arbitrary: i fls)
  case Nil
  with assms(2) show ?case by simp
next
  case (Cons a pre)
  from Cons.prems obtain r where r: "parse_flight_line_txt to_int a = Inr r" by auto
  from Cons.prems have "\<forall>l' \<in> set pre. \<exists>r. parse_flight_line_txt to_int l' = Inr r" by simp
  moreover have "i + 1 + int (length pre) = i + int (length (a # pre))" by simp
  ultimately have "load_txt_lines to_int path (i + 1) (pre @ l # post) fls' =
     Inl (ValueError (path @ '':'' @ str_int (i + int (length (a # pre))) @ '': '' @ error_text e))"
    for fls'
    using Cons.IH[of "i + 1" fls'] by (simp only:)
  with r show ?case by (cases r) simp_all
qed

lemma load_flights_txt_rejects:
  assumes "\<forall>l' \<in> set pre. \<exists>r. parse_flight_line_txt to_int l' = Inr r"
    and "parse_flight_line_txt to_int l = Inl e"
  shows "load_flights_txt to_int path (pre @ l # post) =
     Inl (ValueError (path @ '':'' @ str_int (int (length pre) + 1) @ '': '' @ error_text e))"
  using load_txt_lines_rejects[OF assms, of path 1 post "[]"]
  by (simp add: load_flights_txt_def add.commute)

lemma parse_flight_line_txt_field_count:
  assumes "strip l \<noteq> []" "hd (strip l) \<noteq> CHR ''#''" "length (split_ws (strip l)) \<noteq> 8"
  shows "parse_flight_line_txt to_int l = Inl (ValueError [])"
  using assms
  by (auto simp: parse_flight_line_txt_def Let_def split: list.splits)

text \<open>
  C8: both loaders reject a load with a malformed row by a validation error that names
  the row. The text loader does; the CSV loader does not. For a row that arrives before
  it departs, \<open>load_flights_csv\<close> raises \<open>ValueError\<close> with no message, the same error
  whether the row is the first or the second, while \<open>load_flights_txt\<close> raises
  \<open>ValueError\<close> with the path and the line number.
\<close>

theorem csv_loader_error_has_no_row_number:
  "load_flights_csv ascii_int ex_csv_header [ex_csv_row] = Inl (ValueError []) \<and>
   load_flights_csv ascii_int ex_csv_header [ex_csv_row_good, ex_csv_row] = Inl (ValueError []) \<and>
   load_flights_txt ascii_int ''s.txt'' [''A B X1 08:00 09:00 1 1 1'', ''A B X1 09:00 08:00 1 1 1'']
     = Inl (ValueError ''s.txt:2: '')"
  by code_simp

section \<open>Searching from an airport without outbound flights\<close>

lemma find_earliest_no_outbound:
  assumes "graph_get g start = []" "start \<noteq> dst"
  shows "find_earliest_itinerary g start dst ed = Some None"
proof -
  have 1: "earliest_iter g start dst (earliest_init start ed) =
      Continue \<lparr>e_dist = [start \<mapsto> ed], e_prev = Map.empty, e_pq = [], e_visited = [start]\<rparr>"
    using assms by (simp add: earliest_iter_def earliest_init_def)
  have 2: "earliest_iter g start dst
      \<lparr>e_dist = [start \<mapsto> ed], e_prev = Map.empty, e_pq = [], e_visited = [start]\<rparr> =
      Exhausted \<lparr>e_dist = [start \<mapsto> ed], e_prev = Map.empty, e_pq = [], e_visited = [start]\<rparr>"
    by (simp add: earliest_iter_def)
  have "earliest_loop g start dst (earliest_init start ed) =
      Exhausted \<lparr>e_dist = [start \<mapsto> ed], e_prev = Map.empty, e_pq = [], e_visited = [start]\<rparr>"
    by (subst earliest_loop.simps, simp add: 1, subst earliest_loop.simps, simp add: 2)
  then show ?thesis by (simp add: find_earliest_itinerary_def)
qed

lemma find_cheapest_no_outbound:
  assumes "graph_get g start = []" "start \<noteq> dst"
  shows "find_cheapest_itinerary g start dst ed cabin = Some (Inr None)"
proof -
  have 1: "cheapest_iter g start dst cabin (cheapest_init start ed) =
      Continue \<lparr>c_dist = [start \<mapsto> 0], c_prev = Map.empty, c_pq = [], c_visited = [(start, 0)]\<rparr>"
    using assms by (simp add: cheapest_iter_def cheapest_init_def)
  have 2: "cheapest_iter g start dst cabin
      \<lparr>c_dist = [start \<mapsto> 0], c_prev = Map.empty, c_pq = [], c_visited = [(start, 0)]\<rparr> =
      Exhausted \<lparr>c_dist = [start \<mapsto> 0], c_prev = Map.empty, c_pq = [], c_visited = [(start, 0)]\<rparr>"
    by (simp add: cheapest_iter_def)
  have "cheapest_loop g start dst cabin (cheapest_init start ed) =
      Some (Exhausted \<lparr>c_dist = [start \<mapsto> 0], c_prev = Map.empty, c_pq = [], c_visited = [(start, 0)]\<rparr>)"
    by (subst cheapest_loop.simps, simp add: 1, subst cheapest_loop.simps, simp add: 2)
  then show ?thesis by (simp add: find_cheapest_itinerary_def)
qed

text \<open>
  C6: in the graph built from a sequence of flights, the outbound list of an airport code
  is the subsequence of the flights whose origin is exactly that code, in input order;
  an airport is a key of the graph only when some flight departs from it, each key
  occurs once, and the lookup of an airport without outbound flights is the empty list,
  so a search from such an airport to another one returns \<open>None\<close> and does not fail.
\<close>

theorem build_graph_groups_by_origin:
  "graph_get (build_graph fls) a = filter (\<lambda>f. origin f = a) fls \<and>
   (map_of (build_graph fls) a = None \<longleftrightarrow> a \<notin> origin ` set fls) \<and>
   distinct (map fst (build_graph fls)) \<and>
   (a \<notin> origin ` set fls \<longrightarrow> graph_get (build_graph fls) a = []) \<and>
   (a \<notin> origin ` set fls \<and> a \<noteq> dst \<longrightarrow>
      find_earliest_itinerary (build_graph fls) a dst ed = Some None \<and>
      find_cheapest_itinerary (build_graph fls) a dst ed cabin = Some (Inr None))"
proof -
  have "graph_get (build_graph fls) a = []" if "a \<notin> origin ` set fls"
    using that build_graph_lookup[of fls a] by blast
  then show ?thesis
    using build_graph_lookup[of fls a] find_earliest_no_outbound find_cheapest_no_outbound
    by blast
qed

theorem build_graph_groups_by_origin_witness:
  "''C'' \<notin> origin ` set [ex_AB, ex_BC, ex_AC] \<and> ''C'' \<noteq> ''A'' \<and>
   graph_get (build_graph [ex_AB, ex_BC, ex_AC]) ''C'' = [] \<and>
   map_of (build_graph [ex_AB, ex_BC, ex_AC]) ''C'' = None \<and>
   build_graph [ex_AB, ex_BC, ex_AC] = [(''A'', [ex_AB, ex_AC]), (''B'', [ex_BC])] \<and>
   find_earliest_itinerary (build_graph [ex_AB, ex_BC, ex_AC]) ''C'' ''A'' 420 = Some None \<and>
   find_cheapest_itinerary (build_graph [ex_AB, ex_BC, ex_AC]) ''C'' ''A'' 420 ''economy'' = Some (Inr None)"
  using build_graph_groups_by_origin [of "[ex_AB, ex_BC, ex_AC]" "''C''" "''A''" 420 "''economy''"]
  by (simp add: build_graph_def ex_AB_def ex_BC_def ex_AC_def)

section \<open>Every pop of the cheapest-fare search finalises its pair\<close>











section \<open>Counting the relaxations of the earliest-arrival search\<close>










end
